theory Spec2Isabelle
  imports Complex_Main
begin

section \<open>Data model\<close>

text \<open>
  The instance of \<^verbatim>\<open>main.py\<close>: an object with \<^verbatim>\<open>num_jobs\<close>, \<^verbatim>\<open>num_machines\<close> and
  \<^verbatim>\<open>jobs\<close>, a list of dictionaries \<^verbatim>\<open>{'job_id', 'operations'}\<close>; an operation is a
  dictionary \<^verbatim>\<open>{'operation_id', 'eligible_machines', 'processing_times'}\<close>.
  Identifiers are Python integers, durations and times are numbers (idealised as reals:
  no rounding, no infinities, no NaN), \<^verbatim>\<open>eligible_machines\<close> is a list and
  \<^verbatim>\<open>processing_times\<close> a dictionary from machine to duration.
\<close>

record operation =
  operation_id :: int
  eligible_machines :: "int list"
  processing_times :: "int \<rightharpoonup> real"

record job =
  job_id :: int
  operations :: "operation list"

record fsjp_instance =
  num_jobs :: nat
  num_machines :: nat
  jobs :: "job list"

text \<open>
  A schedule entry is a dictionary with the keys \<^verbatim>\<open>job_id\<close>, \<^verbatim>\<open>operation_id\<close>,
  \<^verbatim>\<open>machine\<close>, \<^verbatim>\<open>start_time\<close> and \<^verbatim>\<open>completion_time\<close>. A key can be absent from a
  hand-built entry, so every field is optional; reading an absent key raises
  \<^verbatim>\<open>KeyError\<close>. A key that is present holds an integer (\<^verbatim>\<open>job_id\<close>, \<^verbatim>\<open>operation_id\<close>,
  \<^verbatim>\<open>machine\<close>) or a number (\<^verbatim>\<open>start_time\<close>, \<^verbatim>\<open>completion_time\<close>): entries whose values
  have another type (\<^verbatim>\<open>None\<close>, a string, a list), on which a comparison of the validator
  raises \<^verbatim>\<open>TypeError\<close>, are not values of this record.
\<close>

record entry =
  entry_job_id :: "int option"
  entry_operation_id :: "int option"
  machine :: "int option"
  start_time :: "real option"
  completion_time :: "real option"

text \<open>The exceptions the modelled code can raise; \<open>KeyError\<close> carries the text of the key.\<close>

datatype exn =
  KeyError string | IndexError | ValueError | ZeroDivisionError | TypeError | OverflowError

datatype pyfloat = Fin real | PosInf

text \<open>
  The result dictionaries of the repository: \<^verbatim>\<open>makespan\<close> is in every one of them, the
  other keys are present or not.
\<close>

record result =
  makespan :: pyfloat
  schedule :: "entry list option"
  algorithm_type :: "string option"
  error :: "string option"
  execution_time :: "real option"

section \<open>Python primitives\<close>

text \<open>\<^verbatim>\<open>xs[i]\<close> on a list: a negative index counts from the end, out of range raises.\<close>

definition py_index :: "'a list \<Rightarrow> int \<Rightarrow> exn + 'a" where
  "py_index xs i =
     (let n = int (length xs); k = (if i < 0 then n + i else i)
      in if 0 \<le> k \<and> k < n then Inr (xs ! nat k) else Inl IndexError)"

text \<open>\<^verbatim>\<open>xs[i] = v\<close> on a list, same index rule.\<close>

definition py_store :: "'a list \<Rightarrow> int \<Rightarrow> 'a \<Rightarrow> exn + 'a list" where
  "py_store xs i v =
     (let n = int (length xs); k = (if i < 0 then n + i else i)
      in if 0 \<le> k \<and> k < n then Inr (xs[nat k := v]) else Inl IndexError)"

text \<open>Decimal text of an integer, as an f-string prints it.\<close>

fun str_nat :: "nat \<Rightarrow> string" where
  "str_nat n =
     (if n < 10 then [''0123456789'' ! n]
      else str_nat (n div 10) @ [''0123456789'' ! (n mod 10)])"

declare str_nat.simps [simp del]

definition str_int :: "int \<Rightarrow> string" where
  "str_int i = (if i < 0 then CHR ''-'' # str_nat (nat (- i)) else str_nat (nat i))"

text \<open>\<^verbatim>\<open>d[key]\<close> on a dictionary: the error carries the text of the absent key.\<close>

definition field :: "string \<Rightarrow> 'a option \<Rightarrow> exn + 'a" where
  "field name v = (case v of None \<Rightarrow> Inl (KeyError name) | Some x \<Rightarrow> Inr x)"

section \<open>The heuristic: \<^verbatim>\<open>shortest_processing_time\<close>\<close>

text \<open>
  The four \<^verbatim>\<open>best_*\<close> variables and \<^verbatim>\<open>best_completion_time\<close>. Before any candidate is
  accepted they hold \<^verbatim>\<open>inf, -1, -1, inf\<close>: that state is \<open>None\<close>. Every duration is
  finite, so the first candidate met is always accepted (\<^verbatim>\<open>processing_time < inf\<close>).
\<close>

record best =
  best_processing_time :: real
  best_start_time :: real
  best_job :: nat
  best_machine :: int
  best_completion_time :: real

record spt_state =
  machine_available :: "real list"
  job_operation_idx :: "nat list"
  job_completion :: "real list"
  schedule_so_far :: "entry list"

text \<open>The test of lines 50-51.\<close>

definition improves :: "real \<Rightarrow> real \<Rightarrow> best option \<Rightarrow> bool" where
  "improves processing_time start b =
     (case b of None \<Rightarrow> True
      | Some c \<Rightarrow> processing_time < best_processing_time c \<or>
          (processing_time = best_processing_time c \<and> start < best_start_time c))"

text \<open>The loop over \<^verbatim>\<open>operation['eligible_machines']\<close>, lines 45-56.\<close>

fun scan_machines ::
  "spt_state \<Rightarrow> nat \<Rightarrow> operation \<Rightarrow> int list \<Rightarrow> best option \<Rightarrow> exn + best option" where
  "scan_machines st j opn [] b = Inr b"
| "scan_machines st j opn (m # ms) b =
     (case processing_times opn m of
        None \<Rightarrow> Inl (KeyError (str_int m))
      | Some processing_time \<Rightarrow>
          (case py_index (machine_available st) m of
             Inl e \<Rightarrow> Inl e
           | Inr avail \<Rightarrow>
               let start = max avail (job_completion st ! j) in
               scan_machines st j opn ms
                 (if improves processing_time start b
                  then Some \<lparr>best_processing_time = processing_time,
                             best_start_time = start,
                             best_job = j,
                             best_machine = m,
                             best_completion_time = start + processing_time\<rparr>
                  else b)))"

text \<open>
  The loop over \<^verbatim>\<open>range(instance.num_jobs)\<close>, lines 36-56. \<^verbatim>\<open>instance.jobs[job_id]\<close>
  raises when \<^verbatim>\<open>num_jobs\<close> exceeds the length of \<^verbatim>\<open>jobs\<close>. The lists
  \<^verbatim>\<open>job_operation_idx\<close> and \<^verbatim>\<open>job_completion\<close> have length \<^verbatim>\<open>num_jobs\<close>, so reading them
  at \<^verbatim>\<open>job_id\<close> is in range.
\<close>

fun scan_jobs ::
  "fsjp_instance \<Rightarrow> spt_state \<Rightarrow> nat list \<Rightarrow> best option \<Rightarrow> exn + best option" where
  "scan_jobs inst st [] b = Inr b"
| "scan_jobs inst st (j # js) b =
     (if length (jobs inst) \<le> j then Inl IndexError
      else if length (operations (jobs inst ! j)) \<le> job_operation_idx st ! j
      then scan_jobs inst st js b
      else
        (let opn = operations (jobs inst ! j) ! (job_operation_idx st ! j) in
         case scan_machines st j opn (eligible_machines opn) b of
           Inl e \<Rightarrow> Inl e
         | Inr b' \<Rightarrow> scan_jobs inst st js b'))"

text \<open>
  The condition of the \<^verbatim>\<open>while\<close>, lines 27-28: \<^verbatim>\<open>all\<close> over a generator stops at the
  first job that is not complete.
\<close>

fun all_jobs_complete :: "fsjp_instance \<Rightarrow> spt_state \<Rightarrow> nat list \<Rightarrow> exn + bool" where
  "all_jobs_complete inst st [] = Inr True"
| "all_jobs_complete inst st (j # js) =
     (if length (jobs inst) \<le> j then Inl IndexError
      else if length (operations (jobs inst ! j)) \<le> job_operation_idx st ! j
      then all_jobs_complete inst st js
      else Inr False)"

text \<open>Lines 59-73: the chosen operation is appended and the three lists updated.\<close>

definition commit :: "fsjp_instance \<Rightarrow> spt_state \<Rightarrow> best \<Rightarrow> exn + spt_state" where
  "commit inst st c =
     (let j = best_job c;
          opn = operations (jobs inst ! j) ! (job_operation_idx st ! j);
          e = \<lparr>entry_job_id = Some (int j),
               entry_operation_id = Some (operation_id opn),
               machine = Some (best_machine c),
               start_time = Some (best_start_time c),
               completion_time = Some (best_completion_time c)\<rparr>
      in case py_store (machine_available st) (best_machine c) (best_completion_time c) of
           Inl x \<Rightarrow> Inl x
         | Inr ma \<Rightarrow>
             Inr \<lparr>machine_available = ma,
                  job_operation_idx =
                    (job_operation_idx st)[j := job_operation_idx st ! j + 1],
                  job_completion = (job_completion st)[j := best_completion_time c],
                  schedule_so_far = schedule_so_far st @ [e]\<rparr>)"

text \<open>
  One pass through the body of the \<^verbatim>\<open>while\<close>. With no candidate (\<^verbatim>\<open>best_job == -1\<close>) the
  body changes nothing.
\<close>

definition spt_iteration :: "fsjp_instance \<Rightarrow> spt_state \<Rightarrow> exn + spt_state" where
  "spt_iteration inst st =
     (case scan_jobs inst st [0..<num_jobs inst] None of
        Inl e \<Rightarrow> Inl e
      | Inr None \<Rightarrow> Inr st
      | Inr (Some c) \<Rightarrow> commit inst st c)"

text \<open>
  The \<^verbatim>\<open>while\<close> loop. Nothing in the source bounds the number of iterations, so the loop
  is a partial function: \<open>None\<close> is a run that never leaves the loop.
\<close>

partial_function (option) spt_while ::
  "fsjp_instance \<Rightarrow> spt_state \<Rightarrow> (exn + spt_state) option" where
  "spt_while inst st =
     (case all_jobs_complete inst st [0..<num_jobs inst] of
        Inl e \<Rightarrow> Some (Inl e)
      | Inr all_done \<Rightarrow>
          if all_done then Some (Inr st)
          else
            (case spt_iteration inst st of
               Inl e \<Rightarrow> Some (Inl e)
             | Inr st' \<Rightarrow> spt_while inst st'))"

definition initial_state :: "fsjp_instance \<Rightarrow> spt_state" where
  "initial_state inst =
     \<lparr>machine_available = replicate (num_machines inst) 0,
      job_operation_idx = replicate (num_jobs inst) 0,
      job_completion = replicate (num_jobs inst) 0,
      schedule_so_far = []\<rparr>"

text \<open>\<^verbatim>\<open>max\<close> of a list raises \<^verbatim>\<open>ValueError\<close> on the empty list.\<close>

definition py_max :: "real list \<Rightarrow> exn + real" where
  "py_max xs = (case xs of [] \<Rightarrow> Inl ValueError | y # ys \<Rightarrow> Inr (fold max ys y))"

definition finish :: "spt_state \<Rightarrow> exn + result" where
  "finish st =
     (case py_max (job_completion st) of
        Inl e \<Rightarrow> Inl e
      | Inr m \<Rightarrow>
          Inr \<lparr>makespan = Fin m,
               schedule = Some (schedule_so_far st),
               algorithm_type = Some ''shortest_processing_time'',
               error = None,
               execution_time = None\<rparr>)"

definition shortest_processing_time :: "fsjp_instance \<Rightarrow> (exn + result) option" where
  "shortest_processing_time inst =
     (case spt_while inst (initial_state inst) of
        None \<Rightarrow> None
      | Some (Inl e) \<Rightarrow> Some (Inl e)
      | Some (Inr st) \<Rightarrow> Some (finish st))"

section \<open>The validator: \<^verbatim>\<open>validate_solution\<close>\<close>

text \<open>Lines 195-198: the set of the keys \<^verbatim>\<open>(op['job_id'], op['operation_id'])\<close>.\<close>

definition op_key :: "entry \<Rightarrow> exn + int \<times> int" where
  "op_key op =
     (case field ''job_id'' (entry_job_id op) of
        Inl e \<Rightarrow> Inl e
      | Inr j \<Rightarrow>
          (case field ''operation_id'' (entry_operation_id op) of
             Inl e \<Rightarrow> Inl e
           | Inr k \<Rightarrow> Inr (j, k)))"

fun collect_scheduled_ops :: "entry list \<Rightarrow> (int \<times> int) set \<Rightarrow> exn + (int \<times> int) set" where
  "collect_scheduled_ops [] s = Inr s"
| "collect_scheduled_ops (op # ops) s =
     (case op_key op of
        Inl e \<Rightarrow> Inl e
      | Inr k \<Rightarrow> collect_scheduled_ops ops (insert k s))"

text \<open>
  Lines 200-205: the pairs \<^verbatim>\<open>(job_id, op_id)\<close> in the order the two nested loops visit
  them (\<^verbatim>\<open>enumerate(instance.jobs)\<close>, then \<^verbatim>\<open>range(len(job['operations']))\<close>), and the
  sum \<^verbatim>\<open>total_required_ops\<close>.
\<close>

definition required_ops :: "fsjp_instance \<Rightarrow> (nat \<times> nat) list" where
  "required_ops inst =
     concat (map (\<lambda>(j, jb). map (\<lambda>k. (j, k)) [0..<length (operations jb)])
                 (enumerate 0 (jobs inst)))"

definition total_required_ops :: "fsjp_instance \<Rightarrow> nat" where
  "total_required_ops inst = sum_list (map (\<lambda>jb. length (operations jb)) (jobs inst))"

definition not_scheduled :: "(int \<times> int) set \<Rightarrow> nat \<times> nat \<Rightarrow> bool" where
  "not_scheduled scheduled_ops p = ((int (fst p), int (snd p)) \<notin> scheduled_ops)"

text \<open>The list comprehension \<^verbatim>\<open>[op for op in schedule if op[name] == v]\<close>.\<close>

fun select_entries ::
  "string \<Rightarrow> (entry \<Rightarrow> int option) \<Rightarrow> int \<Rightarrow> entry list \<Rightarrow> exn + entry list" where
  "select_entries name f v [] = Inr []"
| "select_entries name f v (op # ops) =
     (case field name (f op) of
        Inl e \<Rightarrow> Inl e
      | Inr x \<Rightarrow>
          (case select_entries name f v ops of
             Inl e \<Rightarrow> Inl e
           | Inr r \<Rightarrow> Inr (if x = v then op # r else r)))"

text \<open>
  \<^verbatim>\<open>xs.sort(key=lambda x: x[name])\<close>: the key of every element is computed first, in list
  order, then the list is sorted; the sort is stable.
\<close>

definition py_sort ::
  "string \<Rightarrow> (entry \<Rightarrow> ('k::linorder) option) \<Rightarrow> entry list \<Rightarrow> exn + entry list" where
  "py_sort name f xs =
     (case List.find (\<lambda>x. f x = None) xs of
        Some _ \<Rightarrow> Inl (KeyError name)
      | None \<Rightarrow> Inr (sort_key (\<lambda>x. the (f x)) xs))"

text \<open>
  The loops of lines 216-218 and 228-230: the first \<^verbatim>\<open>i\<close> with
  \<^verbatim>\<open>xs[i-1]['completion_time'] > xs[i]['start_time']\<close>; the result is \<^verbatim>\<open>xs[i]\<close>.
\<close>

fun first_overlap :: "entry list \<Rightarrow> exn + entry option" where
  "first_overlap (a # b # rest) =
     (case field ''completion_time'' (completion_time a) of
        Inl e \<Rightarrow> Inl e
      | Inr c \<Rightarrow>
          (case field ''start_time'' (start_time b) of
             Inl e \<Rightarrow> Inl e
           | Inr s \<Rightarrow> if c > s then Inr (Some b) else first_overlap (b # rest)))"
| "first_overlap xs = Inr None"

text \<open>The body of the loop of lines 211-218, for one \<^verbatim>\<open>job_id\<close>.\<close>

definition check_job_order :: "entry list \<Rightarrow> nat \<Rightarrow> exn + string option" where
  "check_job_order sched j =
     (case select_entries ''job_id'' entry_job_id (int j) sched of
        Inl e \<Rightarrow> Inl e
      | Inr job_ops \<Rightarrow>
          (case py_sort ''operation_id'' entry_operation_id job_ops of
             Inl e \<Rightarrow> Inl e
           | Inr sorted_ops \<Rightarrow>
               (case first_overlap sorted_ops of
                  Inl e \<Rightarrow> Inl e
                | Inr None \<Rightarrow> Inr None
                | Inr (Some b) \<Rightarrow>
                    (case field ''operation_id'' (entry_operation_id b) of
                       Inl e \<Rightarrow> Inl e
                     | Inr k \<Rightarrow>
                         Inr (Some (''Operation '' @ str_int k @ '' of job '' @ str_nat j @
                                    '' starts before previous operation completes''))))))"

text \<open>The body of the loop of lines 221-230, for one \<^verbatim>\<open>machine_id\<close>.\<close>

definition check_machine :: "entry list \<Rightarrow> nat \<Rightarrow> exn + string option" where
  "check_machine sched m =
     (case select_entries ''machine'' machine (int m) sched of
        Inl e \<Rightarrow> Inl e
      | Inr machine_ops \<Rightarrow>
          (case py_sort ''start_time'' start_time machine_ops of
             Inl e \<Rightarrow> Inl e
           | Inr sorted_ops \<Rightarrow>
               (case first_overlap sorted_ops of
                  Inl e \<Rightarrow> Inl e
                | Inr None \<Rightarrow> Inr None
                | Inr (Some b) \<Rightarrow>
                    Inr (Some (''Operations on machine '' @ str_nat m @
                               '' overlap in time'')))))"

text \<open>A \<^verbatim>\<open>for\<close> loop whose body may return a failure message: the first one wins.\<close>

fun first_failure :: "(nat \<Rightarrow> exn + string option) \<Rightarrow> nat list \<Rightarrow> exn + string option" where
  "first_failure chk [] = Inr None"
| "first_failure chk (i # is) =
     (case chk i of
        Inl e \<Rightarrow> Inl e
      | Inr (Some msg) \<Rightarrow> Inr (Some msg)
      | Inr None \<Rightarrow> first_failure chk is)"

definition validate_solution :: "fsjp_instance \<Rightarrow> result \<Rightarrow> exn + bool \<times> string option" where
  "validate_solution inst solution =
     (let sched = (case schedule solution of None \<Rightarrow> [] | Some s \<Rightarrow> s) in
      case collect_scheduled_ops sched {} of
        Inl e \<Rightarrow> Inl e
      | Inr scheduled_ops \<Rightarrow>
          (case List.find (not_scheduled scheduled_ops) (required_ops inst) of
             Some (j, k) \<Rightarrow>
               Inr (False, Some (''Operation '' @ str_nat k @ '' of job '' @ str_nat j @
                                 '' is not scheduled''))
           | None \<Rightarrow>
               if card scheduled_ops \<noteq> total_required_ops inst
               then Inr (False, Some ''Schedule contains duplicate operations'')
               else
                 (case first_failure (check_job_order sched) [0..<num_jobs inst] of
                    Inl e \<Rightarrow> Inl e
                  | Inr (Some msg) \<Rightarrow> Inr (False, Some msg)
                  | Inr None \<Rightarrow>
                      (case first_failure (check_machine sched) [0..<num_machines inst] of
                         Inl e \<Rightarrow> Inl e
                       | Inr (Some msg) \<Rightarrow> Inr (False, Some msg)
                       | Inr None \<Rightarrow> Inr (True, None)))))"

section \<open>\<^verbatim>\<open>run_algorithm\<close>\<close>

text \<open>
  What a scheduling function called by \<^verbatim>\<open>run_algorithm\<close> can do: run forever (\<open>None\<close>),
  raise an \<^verbatim>\<open>Exception\<close> \<^verbatim>\<open>e\<close> (\<open>Inl\<close>, with the text \<^verbatim>\<open>str(e)\<close>), or return a
  value, a dictionary or not.
\<close>

datatype alg_value = DictValue result | OtherValue

type_synonym algorithm = "fsjp_instance \<Rightarrow> (string + alg_value) option"

text \<open>
  \<^verbatim>\<open>run_algorithm(name, instance)\<close>. The dictionary returned by \<^verbatim>\<open>load_algorithms()\<close>
  (read from \<^verbatim>\<open>config.json\<close>) and the two readings of \<^verbatim>\<open>time.time()\<close> are parameters.
  The result is \<open>Inl\<close> when \<^verbatim>\<open>run_algorithm\<close> itself raises.
\<close>

definition run_algorithm ::
  "(string \<rightharpoonup> algorithm) \<Rightarrow> real \<Rightarrow> real \<Rightarrow> string \<Rightarrow> fsjp_instance
     \<Rightarrow> (string + result) option" where
  "run_algorithm algorithms t_start t_end name inst =
     (case algorithms name of
        None \<Rightarrow>
          Some (Inr \<lparr>makespan = PosInf, schedule = None, algorithm_type = None,
                     error = Some (''Unknown algorithm: '' @ name),
                     execution_time = None\<rparr>)
      | Some alg \<Rightarrow>
          (case alg inst of
             None \<Rightarrow> None
           | Some outcome \<Rightarrow>
               (let res =
                      (case outcome of
                         Inl msg \<Rightarrow>
                           DictValue
                             \<lparr>makespan = PosInf, schedule = None, algorithm_type = None,
                              error = Some (''Error running '' @ name @ '': '' @ msg),
                              execution_time = None\<rparr>
                       | Inr v \<Rightarrow> v);
                    elapsed = t_end - t_start
                in Some (Inr (case res of
                                DictValue d \<Rightarrow> d\<lparr>execution_time := Some elapsed\<rparr>
                              | OtherValue \<Rightarrow>
                                  \<lparr>makespan = PosInf, schedule = None,
                                   algorithm_type = None,
                                   error = Some (''Algorithm '' @ name @
                                                 '' didn't return a valid result''),
                                   execution_time = Some elapsed\<rparr>)))))"

section \<open>The instance constructor\<close>

text \<open>\<^verbatim>\<open>int(x)\<close> of a float: truncation toward zero.\<close>

definition py_int :: "real \<Rightarrow> int" where
  "py_int x = (if 0 \<le> x then \<lfloor>x\<rfloor> else \<lceil>x\<rceil>)"

text \<open>
  Line 33 of \<^verbatim>\<open>main.py\<close>:
  \<^verbatim>\<open>max(1, int(self.num_jobs ** CONFIG[...]['machine_scaling_exponent']))\<close>, with an
  integer \<^verbatim>\<open>num_jobs\<close> and a float exponent. The power is a floating-point operation:
  its value is the double nearest to the real power, not the real power, and it raises
  \<^verbatim>\<open>OverflowError\<close> when the result is out of range and \<^verbatim>\<open>ZeroDivisionError\<close> for base 0
  with a negative exponent. The floating-point power is the parameter \<open>float_pow\<close>:
  \<open>float_pow n x\<close> is \<open>Inr p\<close> when \<^verbatim>\<open>n ** x\<close> is the finite float \<open>p\<close>, and \<open>Inl\<close> of
  the exception that the evaluation of \<^verbatim>\<open>int(n ** x)\<close> raises otherwise.
\<close>

definition init_num_machines :: "(int \<Rightarrow> real \<Rightarrow> exn + real) \<Rightarrow> int \<Rightarrow> real \<Rightarrow> exn + int" where
  "init_num_machines float_pow n exponent =
     (case float_pow n exponent of
        Inl e \<Rightarrow> Inl e
      | Inr p \<Rightarrow> Inr (max 1 (py_int p)))"

text \<open>
  The derivation of \<^verbatim>\<open>num_machines\<close> as the specification words it:
  \<^verbatim>\<open>max(1, round(num_jobs ^ machine_scaling_exponent))\<close>, the power rounded to the nearest
  integer.
\<close>

definition spec_num_machines :: "int \<Rightarrow> real \<Rightarrow> int" where
  "spec_num_machines n exponent = max 1 (round (real_of_int n powr exponent))"

section \<open>Instance invariants and loop invariants\<close>

text \<open>
  The invariants of an instance: the number of jobs is positive and is the length of
  \<^verbatim>\<open>jobs\<close>; the \<^verbatim>\<open>operation_id\<close> of an operation is its index in its job; every operation
  has at least one eligible machine; every eligible machine lies in
  \<open>[0, num_machines)\<close> and has a strictly positive duration in \<^verbatim>\<open>processing_times\<close>.
\<close>

definition valid_operation :: "nat \<Rightarrow> nat \<times> operation \<Rightarrow> bool" where
  "valid_operation nm p =
     (operation_id (snd p) = int (fst p) \<and>
      eligible_machines (snd p) \<noteq> [] \<and>
      list_all (\<lambda>m. 0 \<le> m \<and> m < int nm \<and>
                  (case processing_times (snd p) m of None \<Rightarrow> False | Some d \<Rightarrow> 0 < d))
               (eligible_machines (snd p)))"

definition valid_job :: "nat \<Rightarrow> job \<Rightarrow> bool" where
  "valid_job nm jb = list_all (valid_operation nm) (enumerate 0 (operations jb))"

definition valid_instance :: "fsjp_instance \<Rightarrow> bool" where
  "valid_instance inst =
     (0 < num_jobs inst \<and> length (jobs inst) = num_jobs inst \<and>
      list_all (valid_job (num_machines inst)) (jobs inst))"

text \<open>The next unscheduled operation of job \<open>j\<close>.\<close>

definition next_operation :: "fsjp_instance \<Rightarrow> spt_state \<Rightarrow> nat \<Rightarrow> operation" where
  "next_operation inst st j = operations (jobs inst ! j) ! (job_operation_idx st ! j)"

text \<open>The three lists have the lengths they were created with; no cursor is past the end.\<close>

definition wf_state :: "fsjp_instance \<Rightarrow> spt_state \<Rightarrow> bool" where
  "wf_state inst st =
     (length (machine_available st) = num_machines inst \<and>
      length (job_operation_idx st) = num_jobs inst \<and>
      length (job_completion st) = num_jobs inst \<and>
      list_all (\<lambda>j. job_operation_idx st ! j \<le> length (operations (jobs inst ! j)))
               [0..<num_jobs inst])"

text \<open>
  What the scan of one iteration can select: an incomplete job, a machine eligible for
  its next operation, and the times lines 46-56 compute for them.
\<close>

definition candidate :: "fsjp_instance \<Rightarrow> spt_state \<Rightarrow> best \<Rightarrow> bool" where
  "candidate inst st c =
     (best_job c < num_jobs inst \<and>
      job_operation_idx st ! best_job c < length (operations (jobs inst ! best_job c)) \<and>
      best_machine c \<in> set (eligible_machines (next_operation inst st (best_job c))) \<and>
      processing_times (next_operation inst st (best_job c)) (best_machine c) =
        Some (best_processing_time c) \<and>
      best_start_time c =
        max (machine_available st ! nat (best_machine c)) (job_completion st ! best_job c) \<and>
      best_completion_time c = best_start_time c + best_processing_time c)"

text \<open>The state after committing a candidate on a valid instance.\<close>

definition advance :: "fsjp_instance \<Rightarrow> spt_state \<Rightarrow> best \<Rightarrow> spt_state" where
  "advance inst st c =
     \<lparr>machine_available = (machine_available st)[nat (best_machine c) := best_completion_time c],
      job_operation_idx = (job_operation_idx st)[best_job c := job_operation_idx st ! best_job c + 1],
      job_completion = (job_completion st)[best_job c := best_completion_time c],
      schedule_so_far = schedule_so_far st @
        [\<lparr>entry_job_id = Some (int (best_job c)),
          entry_operation_id = Some (int (job_operation_idx st ! best_job c)),
          machine = Some (best_machine c),
          start_time = Some (best_start_time c),
          completion_time = Some (best_completion_time c)\<rparr>]\<rparr>"

text \<open>The number of operations not yet scheduled: it decreases at every iteration.\<close>

definition remaining :: "fsjp_instance \<Rightarrow> spt_state \<Rightarrow> nat" where
  "remaining inst st =
     (\<Sum>j<num_jobs inst. length (operations (jobs inst ! j)) - job_operation_idx st ! j)"

text \<open>
  The invariant of the partial schedule. Every entry has its five keys, belongs to an
  operation before the cursor of its job, uses a machine of the instance, does not end
  before it starts, and ends no later than its job and its machine are free again.
  Entries of one job come in the order of their operations and do not overlap; entries
  of one machine come in the order of their start times and do not overlap. Every
  operation before a cursor has an entry.
\<close>

definition entry_ok :: "fsjp_instance \<Rightarrow> spt_state \<Rightarrow> entry \<Rightarrow> bool" where
  "entry_ok inst st e =
     (\<exists>j k m s c.
        e = \<lparr>entry_job_id = Some (int j), entry_operation_id = Some (int k),
             machine = Some m, start_time = Some s, completion_time = Some c\<rparr> \<and>
        j < num_jobs inst \<and> k < job_operation_idx st ! j \<and>
        0 \<le> m \<and> m < int (num_machines inst) \<and>
        s \<le> c \<and> c \<le> job_completion st ! j \<and> c \<le> machine_available st ! nat m)"

definition job_before :: "entry \<Rightarrow> entry \<Rightarrow> bool" where
  "job_before a b =
     (entry_job_id a = entry_job_id b \<longrightarrow>
        the (entry_operation_id a) < the (entry_operation_id b) \<and>
        the (completion_time a) \<le> the (start_time b))"

definition machine_before :: "entry \<Rightarrow> entry \<Rightarrow> bool" where
  "machine_before a b =
     (machine a = machine b \<longrightarrow>
        the (start_time a) \<le> the (start_time b) \<and>
        the (completion_time a) \<le> the (start_time b))"

definition sched_inv :: "fsjp_instance \<Rightarrow> spt_state \<Rightarrow> bool" where
  "sched_inv inst st =
     ((\<forall>e\<in>set (schedule_so_far st). entry_ok inst st e) \<and>
      sorted_wrt job_before (schedule_so_far st) \<and>
      sorted_wrt machine_before (schedule_so_far st) \<and>
      (\<forall>j<num_jobs inst. \<forall>k<job_operation_idx st ! j.
         \<exists>e\<in>set (schedule_so_far st).
           entry_job_id e = Some (int j) \<and> entry_operation_id e = Some (int k)))"

text \<open>Entries that have both keys of \<^verbatim>\<open>op_key\<close>, and entries that have all five keys.\<close>

definition has_key :: "entry \<Rightarrow> bool" where
  "has_key e = (entry_job_id e \<noteq> None \<and> entry_operation_id e \<noteq> None)"

definition key_of :: "entry \<Rightarrow> int \<times> int" where
  "key_of e = (the (entry_job_id e), the (entry_operation_id e))"

definition complete_entry :: "entry \<Rightarrow> bool" where
  "complete_entry e =
     (entry_job_id e \<noteq> None \<and> entry_operation_id e \<noteq> None \<and> machine e \<noteq> None \<and>
      start_time e \<noteq> None \<and> completion_time e \<noteq> None)"

text \<open>The makespan \<^verbatim>\<open>shortest_processing_time\<close> returns, when it returns a result.\<close>

definition spt_makespan :: "fsjp_instance \<Rightarrow> pyfloat option" where
  "spt_makespan inst =
     (case shortest_processing_time inst of
        Some (Inr res) \<Rightarrow> Some (makespan res)
      | _ \<Rightarrow> None)"

text \<open>
  The instance with one more job, placed before position \<open>k\<close> of \<^verbatim>\<open>jobs\<close> (at the end
  when \<open>k\<close> is the length or more); the other jobs and \<^verbatim>\<open>num_machines\<close> are unchanged.
\<close>

definition insert_job :: "nat \<Rightarrow> job \<Rightarrow> fsjp_instance \<Rightarrow> fsjp_instance" where
  "insert_job k jb inst =
     inst\<lparr>num_jobs := num_jobs inst + 1,
          jobs := take k (jobs inst) @ jb # drop k (jobs inst)\<rparr>"

text \<open>The work of an instance on machine 0: the sum of the durations on that machine.\<close>

definition operation_work :: "operation \<Rightarrow> real" where
  "operation_work opn = (case processing_times opn 0 of None \<Rightarrow> 0 | Some d \<Rightarrow> d)"

definition job_work :: "job \<Rightarrow> real" where
  "job_work jb = sum_list (map operation_work (operations jb))"

definition total_work :: "fsjp_instance \<Rightarrow> real" where
  "total_work inst = sum_list (map job_work (jobs inst))"

definition scheduled_work :: "fsjp_instance \<Rightarrow> spt_state \<Rightarrow> real" where
  "scheduled_work inst st =
     (\<Sum>j<num_jobs inst. \<Sum>k<job_operation_idx st ! j.
        operation_work (operations (jobs inst ! j) ! k))"

definition one_machine_inv :: "fsjp_instance \<Rightarrow> spt_state \<Rightarrow> bool" where
  "one_machine_inv inst st =
     ((\<forall>j<num_jobs inst. job_completion st ! j \<le> machine_available st ! 0) \<and>
      (\<exists>j<num_jobs inst. job_completion st ! j = machine_available st ! 0) \<and>
      machine_available st ! 0 = scheduled_work inst st)"








section \<open>Concrete instances and schedules\<close>

definition mk_entry :: "int \<Rightarrow> int \<Rightarrow> int \<Rightarrow> real \<Rightarrow> real \<Rightarrow> entry" where
  "mk_entry j k m s c =
     \<lparr>entry_job_id = Some j, entry_operation_id = Some k, machine = Some m,
      start_time = Some s, completion_time = Some c\<rparr>"

definition mk_solution :: "entry list \<Rightarrow> result" where
  "mk_solution sched =
     \<lparr>makespan = Fin 0, schedule = Some sched, algorithm_type = None, error = None,
      execution_time = None\<rparr>"

text \<open>
  One machine, two jobs of one operation each, durations 10 and 5, both eligible on
  machine 0 only.
\<close>

definition scenario_instance :: fsjp_instance where
  "scenario_instance =
     \<lparr>num_jobs = 2, num_machines = 1,
      jobs = [\<lparr>job_id = 0, operations =
                 [\<lparr>operation_id = 0, eligible_machines = [0],
                   processing_times = [0 \<mapsto> 10]\<rparr>]\<rparr>,
              \<lparr>job_id = 1, operations =
                 [\<lparr>operation_id = 0, eligible_machines = [0],
                   processing_times = [0 \<mapsto> 5]\<rparr>]\<rparr>]\<rparr>"

text \<open>
  Two machines. Job 0 has one operation of duration 10 eligible on both machines, job 1
  one operation of duration 10 eligible on machine 0 only.
\<close>

definition flexible_job :: job where
  "flexible_job =
     \<lparr>job_id = 0, operations =
        [\<lparr>operation_id = 0, eligible_machines = [0, 1],
          processing_times = [0 \<mapsto> 10, 1 \<mapsto> 10]\<rparr>]\<rparr>"

definition fixed_job :: job where
  "fixed_job =
     \<lparr>job_id = 1, operations =
        [\<lparr>operation_id = 0, eligible_machines = [0],
          processing_times = [0 \<mapsto> 10]\<rparr>]\<rparr>"

definition short_job :: job where
  "short_job =
     \<lparr>job_id = 2, operations =
        [\<lparr>operation_id = 0, eligible_machines = [0],
          processing_times = [0 \<mapsto> 1]\<rparr>]\<rparr>"

definition two_job_instance :: fsjp_instance where
  "two_job_instance = \<lparr>num_jobs = 2, num_machines = 2, jobs = [flexible_job, fixed_job]\<rparr>"

text \<open>The same instance with one more job, of one operation of duration 1 on machine 0.\<close>

definition three_job_instance :: fsjp_instance where
  "three_job_instance = insert_job 2 short_job two_job_instance"

text \<open>One machine, one job, whose only operation has no eligible machine.\<close>

definition infeasible_instance :: fsjp_instance where
  "infeasible_instance =
     \<lparr>num_jobs = 1, num_machines = 1,
      jobs = [\<lparr>job_id = 0, operations =
                 [\<lparr>operation_id = 0, eligible_machines = [],
                   processing_times = Map.empty\<rparr>]\<rparr>]\<rparr>"

text \<open>Two machines and one job of one operation, eligible on both with duration 5.\<close>

definition single_op_instance :: fsjp_instance where
  "single_op_instance =
     \<lparr>num_jobs = 1, num_machines = 2,
      jobs = [\<lparr>job_id = 0, operations =
                 [\<lparr>operation_id = 0, eligible_machines = [0, 1],
                   processing_times = [0 \<mapsto> 5, 1 \<mapsto> 5]\<rparr>]\<rparr>]\<rparr>"

text \<open>Operation 0 of job 0 twice: on machine 0 from 0 to 5 and on machine 1 from 5 to 10.\<close>

definition duplicated_schedule :: "entry list" where
  "duplicated_schedule = [mk_entry 0 0 0 0 5, mk_entry 0 0 1 5 10]"

text \<open>Operation 0 of job 0 once, and an entry for a job 7 that the instance does not have.\<close>

definition foreign_schedule :: "entry list" where
  "foreign_schedule = [mk_entry 0 0 0 0 5, mk_entry 7 0 1 0 5]"

text \<open>One entry, for operation 0 of job 0, with no \<^verbatim>\<open>machine\<close> key.\<close>

definition schedule_without_machine :: "entry list" where
  "schedule_without_machine =
     [\<lparr>entry_job_id = Some 0, entry_operation_id = Some 0, machine = None,
       start_time = Some 0, completion_time = Some 5\<rparr>]"

text \<open>A scheduling function that raises an exception with the text \<^verbatim>\<open>boom\<close>.\<close>

definition failing_algorithm :: algorithm where
  "failing_algorithm inst = Some (Inl ''boom'')"

definition failing_registry :: "string \<rightharpoonup> algorithm" where
  "failing_registry = [''failing'' \<mapsto> failing_algorithm]"

text \<open>
  The floating-point power of CPython (IEEE doubles) at three inputs: \<^verbatim>\<open>3 ** 0.5\<close> is
  the double \<^verbatim>\<open>1.7320508075688772\<close>, \<^verbatim>\<open>8 ** (1/3)\<close>, where the exponent is the double
  nearest to one third, is \<^verbatim>\<open>2.0\<close>, and \<^verbatim>\<open>10 ** 400.0\<close> raises \<^verbatim>\<open>OverflowError\<close>. At any
  other input the table has the real power.
\<close>

definition sample_float_pow :: "int \<Rightarrow> real \<Rightarrow> exn + real" where
  "sample_float_pow n x =
     (if n = 3 \<and> x = 1 / 2 then Inr (3900231685776981 / 2251799813685248)
      else if n = 8 \<and> x = 6004799503160661 / 18014398509481984 then Inr 2
      else if n = 10 \<and> x = 400 then Inl OverflowError
      else Inr (real_of_int n powr x))"

text \<open>
  Two machines and no two equal durations: job 0 has one operation, of duration 10 on
  machine 0 and 12 on machine 1; job 1 has one operation of duration 7 on machine 0; the
  job to add has one operation of duration 3 on machine 1.
\<close>

definition untied_instance :: fsjp_instance where
  "untied_instance =
     \<lparr>num_jobs = 2, num_machines = 2,
      jobs = [\<lparr>job_id = 0, operations =
                 [\<lparr>operation_id = 0, eligible_machines = [0, 1],
                   processing_times = [0 \<mapsto> 10, 1 \<mapsto> 12]\<rparr>]\<rparr>,
              \<lparr>job_id = 1, operations =
                 [\<lparr>operation_id = 0, eligible_machines = [0],
                   processing_times = [0 \<mapsto> 7]\<rparr>]\<rparr>]\<rparr>"

definition untied_job :: job where
  "untied_job =
     \<lparr>job_id = 2, operations =
        [\<lparr>operation_id = 0, eligible_machines = [1],
          processing_times = [1 \<mapsto> 3]\<rparr>]\<rparr>"

section \<open>The loop terminates on valid instances\<close>

lemma valid_operationD:
  assumes "valid_instance inst" "j < num_jobs inst" "k < length (operations (jobs inst ! j))"
  shows "operation_id (operations (jobs inst ! j) ! k) = int k"
    and "eligible_machines (operations (jobs inst ! j) ! k) \<noteq> []"
    and "m \<in> set (eligible_machines (operations (jobs inst ! j) ! k)) \<Longrightarrow>
         0 \<le> m \<and> m < int (num_machines inst) \<and>
         (\<exists>d. processing_times (operations (jobs inst ! j) ! k) m = Some d \<and> 0 < d)"
proof -
  let ?ops = "operations (jobs inst ! j)"
  from assms(1,2) have "valid_job (num_machines inst) (jobs inst ! j)"
    by (simp add: valid_instance_def list_all_length)
  then have "valid_operation (num_machines inst) (enumerate 0 ?ops ! k)"
    using assms(3) by (simp add: valid_job_def list_all_length)
  then have v: "valid_operation (num_machines inst) (k, ?ops ! k)"
    using assms(3) by (simp add: nth_enumerate_eq)
  show "operation_id (?ops ! k) = int k" "eligible_machines (?ops ! k) \<noteq> []"
    using v by (simp_all add: valid_operation_def)
  show "m \<in> set (eligible_machines (?ops ! k)) \<Longrightarrow>
         0 \<le> m \<and> m < int (num_machines inst) \<and>
         (\<exists>d. processing_times (?ops ! k) m = Some d \<and> 0 < d)"
    using v by (auto simp: valid_operation_def list_all_iff split: option.splits)
qed

lemma all_jobs_complete_eq:
  assumes "\<forall>j\<in>set js. j < length (jobs inst)"
  shows "all_jobs_complete inst st js =
         Inr (\<forall>j\<in>set js. length (operations (jobs inst ! j)) \<le> job_operation_idx st ! j)"
  using assms by (induction js) auto

lemma scan_machines_ok:
  assumes "\<forall>m\<in>set ms. 0 \<le> m \<and> m < int (length (machine_available st)) \<and>
             (\<exists>d. processing_times opn m = Some d)"
    and "\<forall>c. b = Some c \<longrightarrow> Q c"
    and "\<And>m d. m \<in> set ms \<Longrightarrow> processing_times opn m = Some d \<Longrightarrow>
           Q \<lparr>best_processing_time = d,
              best_start_time = max (machine_available st ! nat m) (job_completion st ! j),
              best_job = j, best_machine = m,
              best_completion_time = max (machine_available st ! nat m) (job_completion st ! j) + d\<rparr>"
  shows "\<exists>b'. scan_machines st j opn ms b = Inr b' \<and> (\<forall>c. b' = Some c \<longrightarrow> Q c) \<and>
              (b \<noteq> None \<or> ms \<noteq> [] \<longrightarrow> b' \<noteq> None)"
  using assms
proof (induction ms arbitrary: b)
  case Nil
  then show ?case by simp
next
  case (Cons m ms)
  from Cons.prems(1) obtain d where d: "processing_times opn m = Some d"
    and m: "0 \<le> m" "m < int (length (machine_available st))" by auto
  let ?s = "max (machine_available st ! nat m) (job_completion st ! j)"
  let ?c = "\<lparr>best_processing_time = d, best_start_time = ?s, best_job = j, best_machine = m,
             best_completion_time = ?s + d\<rparr>"
  let ?b = "if improves d ?s b then Some ?c else b"
  have idx: "py_index (machine_available st) m = Inr (machine_available st ! nat m)"
    using m by (simp add: py_index_def)
  have step: "scan_machines st j opn (m # ms) b = scan_machines st j opn ms ?b"
    by (simp add: d idx Let_def)
  have Qc: "Q ?c" using Cons.prems(3)[of m d] d by simp
  have "\<exists>b'. scan_machines st j opn ms ?b = Inr b' \<and> (\<forall>c. b' = Some c \<longrightarrow> Q c) \<and>
              (?b \<noteq> None \<or> ms \<noteq> [] \<longrightarrow> b' \<noteq> None)"
  proof (rule Cons.IH)
    show "\<forall>m\<in>set ms. 0 \<le> m \<and> m < int (length (machine_available st)) \<and>
             (\<exists>d. processing_times opn m = Some d)" using Cons.prems(1) by simp
    show "\<forall>c. ?b = Some c \<longrightarrow> Q c" using Cons.prems(2) Qc by simp
    show "\<And>m d. m \<in> set ms \<Longrightarrow> processing_times opn m = Some d \<Longrightarrow>
           Q \<lparr>best_processing_time = d,
              best_start_time = max (machine_available st ! nat m) (job_completion st ! j),
              best_job = j, best_machine = m,
              best_completion_time = max (machine_available st ! nat m) (job_completion st ! j) + d\<rparr>"
      using Cons.prems(3) by simp
  qed
  moreover have "?b \<noteq> None" by (cases b) (simp_all add: improves_def)
  ultimately show ?case unfolding step by auto
qed

lemma wf_stateD:
  assumes "wf_state inst st"
  shows "length (machine_available st) = num_machines inst"
    and "length (job_operation_idx st) = num_jobs inst"
    and "length (job_completion st) = num_jobs inst"
    and "j < num_jobs inst \<Longrightarrow> job_operation_idx st ! j \<le> length (operations (jobs inst ! j))"
  using assms by (simp_all add: wf_state_def list_all_iff)

lemma scan_jobs_ok:
  assumes "valid_instance inst" "wf_state inst st"
    and "\<forall>j\<in>set js. j < num_jobs inst"
    and "\<forall>c. b = Some c \<longrightarrow> candidate inst st c"
  shows "\<exists>b'. scan_jobs inst st js b = Inr b' \<and> (\<forall>c. b' = Some c \<longrightarrow> candidate inst st c) \<and>
              (b \<noteq> None \<or>
               (\<exists>j\<in>set js. job_operation_idx st ! j < length (operations (jobs inst ! j)))
               \<longrightarrow> b' \<noteq> None)"
  using assms(3,4)
proof (induction js arbitrary: b)
  case Nil
  then show ?case by simp
next
  case (Cons j js)
  have len: "length (jobs inst) = num_jobs inst"
    using assms(1) by (simp add: valid_instance_def)
  have j: "j < num_jobs inst" using Cons.prems(1) by simp
  show ?case
  proof (cases "length (operations (jobs inst ! j)) \<le> job_operation_idx st ! j")
    case True
    then have "scan_jobs inst st (j # js) b = scan_jobs inst st js b"
      using j len by simp
    moreover have "\<exists>b'. scan_jobs inst st js b = Inr b' \<and>
        (\<forall>c. b' = Some c \<longrightarrow> candidate inst st c) \<and>
        (b \<noteq> None \<or>
         (\<exists>j\<in>set js. job_operation_idx st ! j < length (operations (jobs inst ! j)))
         \<longrightarrow> b' \<noteq> None)"
      using Cons.IH[of b] Cons.prems by simp
    ultimately show ?thesis using True by auto
  next
    case False
    then have k: "job_operation_idx st ! j < length (operations (jobs inst ! j))" by simp
    let ?opn = "next_operation inst st j"
    have elig: "\<forall>m\<in>set (eligible_machines ?opn).
        0 \<le> m \<and> m < int (length (machine_available st)) \<and>
        (\<exists>d. processing_times ?opn m = Some d)"
      using valid_operationD(3)[OF assms(1) j k] wf_stateD(1)[OF assms(2)]
      by (fastforce simp: next_operation_def)
    have nonempty: "eligible_machines ?opn \<noteq> []"
      using valid_operationD(2)[OF assms(1) j k] by (simp add: next_operation_def)
    obtain b1 where b1: "scan_machines st j ?opn (eligible_machines ?opn) b = Inr b1"
      and b1c: "\<forall>c. b1 = Some c \<longrightarrow> candidate inst st c" and b1n: "b1 \<noteq> None"
    proof -
      have "\<exists>b'. scan_machines st j ?opn (eligible_machines ?opn) b = Inr b' \<and>
             (\<forall>c. b' = Some c \<longrightarrow> candidate inst st c) \<and>
             (b \<noteq> None \<or> eligible_machines ?opn \<noteq> [] \<longrightarrow> b' \<noteq> None)"
      proof (rule scan_machines_ok[OF elig])
        show "\<forall>c. b = Some c \<longrightarrow> candidate inst st c" using Cons.prems(2) .
        fix m d
        assume "m \<in> set (eligible_machines ?opn)" "processing_times ?opn m = Some d"
        then show "candidate inst st
            \<lparr>best_processing_time = d,
             best_start_time = max (machine_available st ! nat m) (job_completion st ! j),
             best_job = j, best_machine = m,
             best_completion_time =
               max (machine_available st ! nat m) (job_completion st ! j) + d\<rparr>"
          using j k by (simp add: candidate_def)
      qed
      then show ?thesis using that nonempty by blast
    qed
    have "scan_jobs inst st (j # js) b = scan_jobs inst st js b1"
      using j len False b1 by (simp add: next_operation_def Let_def)
    moreover have "\<exists>b'. scan_jobs inst st js b1 = Inr b' \<and>
        (\<forall>c. b' = Some c \<longrightarrow> candidate inst st c) \<and>
        (b1 \<noteq> None \<or>
         (\<exists>j\<in>set js. job_operation_idx st ! j < length (operations (jobs inst ! j)))
         \<longrightarrow> b' \<noteq> None)"
      using Cons.IH[of b1] Cons.prems(1) b1c by simp
    ultimately show ?thesis using b1n by auto
  qed
qed

lemma commit_eq:
  assumes "valid_instance inst" "wf_state inst st" "candidate inst st c"
  shows "commit inst st c = Inr (advance inst st c)"
proof -
  let ?j = "best_job c"
  have j: "?j < num_jobs inst"
    and k: "job_operation_idx st ! ?j < length (operations (jobs inst ! ?j))"
    and m: "best_machine c \<in> set (eligible_machines (next_operation inst st ?j))"
    using assms(3) by (simp_all add: candidate_def)
  have rng: "0 \<le> best_machine c" "best_machine c < int (length (machine_available st))"
    using valid_operationD(3)[OF assms(1) j k] m wf_stateD(1)[OF assms(2)]
    by (auto simp: next_operation_def)
  have oid: "operation_id (operations (jobs inst ! ?j) ! (job_operation_idx st ! ?j)) =
             int (job_operation_idx st ! ?j)"
    using valid_operationD(1)[OF assms(1) j k] .
  show ?thesis
    using rng oid by (simp add: commit_def advance_def py_store_def Let_def)
qed

lemma spt_iteration_ok:
  assumes "valid_instance inst" "wf_state inst st"
    and "\<exists>j<num_jobs inst. job_operation_idx st ! j < length (operations (jobs inst ! j))"
  shows "\<exists>c. candidate inst st c \<and> spt_iteration inst st = Inr (advance inst st c)"
proof -
  have "\<exists>b'. scan_jobs inst st [0..<num_jobs inst] None = Inr b' \<and>
          (\<forall>c. b' = Some c \<longrightarrow> candidate inst st c) \<and>
          (None \<noteq> (None :: best option) \<or>
           (\<exists>j\<in>set [0..<num_jobs inst].
              job_operation_idx st ! j < length (operations (jobs inst ! j)))
           \<longrightarrow> b' \<noteq> None)"
    by (rule scan_jobs_ok[OF assms(1,2)]) simp_all
  then obtain c where c: "scan_jobs inst st [0..<num_jobs inst] None = Inr (Some c)"
    and cc: "candidate inst st c"
    using assms(3) by auto
  show ?thesis
    using c cc commit_eq[OF assms(1,2) cc] by (auto simp: spt_iteration_def)
qed

lemma wf_state_advance:
  assumes "wf_state inst st" "candidate inst st c"
  shows "wf_state inst (advance inst st c)"
  using assms
  by (auto simp: wf_state_def advance_def candidate_def list_all_iff nth_list_update)

lemma remaining_advance:
  assumes "wf_state inst st" "candidate inst st c"
  shows "remaining inst (advance inst st c) < remaining inst st"
proof -
  let ?j = "best_job c"
  have j: "?j < num_jobs inst"
    and k: "job_operation_idx st ! ?j < length (operations (jobs inst ! ?j))"
    using assms(2) by (simp_all add: candidate_def)
  have len: "length (job_operation_idx st) = num_jobs inst"
    using wf_stateD(2)[OF assms(1)] .
  show ?thesis
    unfolding remaining_def
  proof (rule sum_strict_mono_ex1)
    show "finite {..<num_jobs inst}" by simp
    show "\<forall>i\<in>{..<num_jobs inst}.
        length (operations (jobs inst ! i)) - job_operation_idx (advance inst st c) ! i
        \<le> length (operations (jobs inst ! i)) - job_operation_idx st ! i"
      using len j by (auto simp: advance_def nth_list_update)
    show "\<exists>i\<in>{..<num_jobs inst}.
        length (operations (jobs inst ! i)) - job_operation_idx (advance inst st c) ! i
        < length (operations (jobs inst ! i)) - job_operation_idx st ! i"
      using j k len by (intro bexI[of _ ?j]) (auto simp: advance_def)
  qed
qed

lemma spt_while_rule:
  assumes valid: "valid_instance inst"
    and step: "\<And>s c. wf_state inst s \<Longrightarrow> P s \<Longrightarrow> candidate inst s c \<Longrightarrow> P (advance inst s c)"
    and init: "wf_state inst st" "P st"
  shows "\<exists>st'. spt_while inst st = Some (Inr st') \<and> wf_state inst st' \<and> P st' \<and>
           (\<forall>j<num_jobs inst.
              job_operation_idx st' ! j = length (operations (jobs inst ! j)))"
  using init
proof (induction "remaining inst st" arbitrary: st rule: less_induct)
  case less
  have len: "length (jobs inst) = num_jobs inst"
    using valid by (simp add: valid_instance_def)
  have cond: "all_jobs_complete inst st [0..<num_jobs inst] =
      Inr (\<forall>j\<in>set [0..<num_jobs inst].
             length (operations (jobs inst ! j)) \<le> job_operation_idx st ! j)"
    by (rule all_jobs_complete_eq) (simp add: len)
  show ?case
  proof (cases "\<forall>j<num_jobs inst.
                  length (operations (jobs inst ! j)) \<le> job_operation_idx st ! j")
    case True
    then have "spt_while inst st = Some (Inr st)"
      by (subst spt_while.simps) (simp add: cond)
    moreover have "\<forall>j<num_jobs inst.
        job_operation_idx st ! j = length (operations (jobs inst ! j))"
      using True wf_stateD(4)[OF less.prems(1)] by (simp add: le_antisym)
    ultimately show ?thesis using less.prems by blast
  next
    case False
    then have ex: "\<exists>j<num_jobs inst.
        job_operation_idx st ! j < length (operations (jobs inst ! j))"
      by (auto simp: not_le)
    from spt_iteration_ok[OF valid less.prems(1) ex]
    obtain c where c: "candidate inst st c"
      and it: "spt_iteration inst st = Inr (advance inst st c)" by blast
    have ncond: "all_jobs_complete inst st [0..<num_jobs inst] = Inr False"
      using False by (auto simp: cond)
    have unfold: "spt_while inst st = spt_while inst (advance inst st c)"
      by (subst spt_while.simps) (simp add: ncond it)
    have "\<exists>st'. spt_while inst (advance inst st c) = Some (Inr st') \<and>
            wf_state inst st' \<and> P st' \<and>
            (\<forall>j<num_jobs inst.
               job_operation_idx st' ! j = length (operations (jobs inst ! j)))"
      using less.hyps[OF remaining_advance[OF less.prems(1) c]
                         wf_state_advance[OF less.prems(1) c]
                         step[OF less.prems(1) less.prems(2) c]] .
    then show ?thesis unfolding unfold .
  qed
qed

section \<open>The schedule invariant\<close>

lemma candidateD:
  assumes "valid_instance inst" "wf_state inst st" "candidate inst st c"
  shows "best_job c < num_jobs inst"
    and "job_operation_idx st ! best_job c < length (operations (jobs inst ! best_job c))"
    and "0 \<le> best_machine c" and "best_machine c < int (num_machines inst)"
    and "0 < best_processing_time c"
    and "best_start_time c =
           max (machine_available st ! nat (best_machine c)) (job_completion st ! best_job c)"
    and "best_completion_time c = best_start_time c + best_processing_time c"
proof -
  let ?j = "best_job c"
  show j: "?j < num_jobs inst"
    and k: "job_operation_idx st ! ?j < length (operations (jobs inst ! ?j))"
    and "best_start_time c =
           max (machine_available st ! nat (best_machine c)) (job_completion st ! best_job c)"
    and "best_completion_time c = best_start_time c + best_processing_time c"
    using assms(3) by (simp_all add: candidate_def)
  have m: "best_machine c \<in> set (eligible_machines (next_operation inst st ?j))"
    and pt: "processing_times (next_operation inst st ?j) (best_machine c) =
             Some (best_processing_time c)"
    using assms(3) by (simp_all add: candidate_def)
  from valid_operationD(3)[OF assms(1) j k, of "best_machine c"] m pt
  show "0 \<le> best_machine c" "best_machine c < int (num_machines inst)"
    "0 < best_processing_time c"
    by (auto simp: next_operation_def)
qed

lemma entry_ok_advance_old:
  assumes v: "valid_instance inst" and w: "wf_state inst st" and c: "candidate inst st c"
    and e: "entry_ok inst st e"
  shows "entry_ok inst (advance inst st c) e"
proof -
  note cd = candidateD[OF v w c]
  from e obtain j k m s t where
    eq: "e = \<lparr>entry_job_id = Some (int j), entry_operation_id = Some (int k),
             machine = Some m, start_time = Some s, completion_time = Some t\<rparr>"
    and j: "j < num_jobs inst" and k: "k < job_operation_idx st ! j"
    and m: "0 \<le> m" "m < int (num_machines inst)"
    and t: "s \<le> t" "t \<le> job_completion st ! j" "t \<le> machine_available st ! nat m"
    unfolding entry_ok_def by blast
  have lens: "length (machine_available st) = num_machines inst"
    "length (job_operation_idx st) = num_jobs inst"
    "length (job_completion st) = num_jobs inst"
    using wf_stateD[OF w] by simp_all
  have ge1: "job_completion st ! best_job c \<le> best_completion_time c"
    and ge2: "machine_available st ! nat (best_machine c) \<le> best_completion_time c"
    using cd(5,6,7) by linarith+
  have k': "k < job_operation_idx (advance inst st c) ! j"
    using k j lens cd(1) by (simp add: advance_def nth_list_update)
  have t2: "t \<le> job_completion (advance inst st c) ! j"
    using t(2) j lens cd(1) ge1 by (auto simp: advance_def nth_list_update)
  have t3: "t \<le> machine_available (advance inst st c) ! nat m"
    using t(3) m lens cd(3,4) ge2 by (auto simp: advance_def nth_list_update)
  show ?thesis
    unfolding entry_ok_def using eq j k' m t(1) t2 t3 by blast
qed

lemma entry_ok_advance_new:
  assumes v: "valid_instance inst" and w: "wf_state inst st" and c: "candidate inst st c"
  shows "entry_ok inst (advance inst st c)
           \<lparr>entry_job_id = Some (int (best_job c)),
            entry_operation_id = Some (int (job_operation_idx st ! best_job c)),
            machine = Some (best_machine c),
            start_time = Some (best_start_time c),
            completion_time = Some (best_completion_time c)\<rparr>"
proof -
  note cd = candidateD[OF v w c]
  have lens: "length (machine_available st) = num_machines inst"
    "length (job_operation_idx st) = num_jobs inst"
    "length (job_completion st) = num_jobs inst"
    using wf_stateD[OF w] by simp_all
  have "job_operation_idx st ! best_job c < job_operation_idx (advance inst st c) ! best_job c"
    using cd(1) lens by (simp add: advance_def)
  moreover have "best_start_time c \<le> best_completion_time c" using cd(5,7) by simp
  moreover have "best_completion_time c \<le> job_completion (advance inst st c) ! best_job c"
    using cd(1) lens by (simp add: advance_def)
  moreover have "best_completion_time c \<le>
      machine_available (advance inst st c) ! nat (best_machine c)"
    using cd(3,4) lens by (simp add: advance_def)
  ultimately show ?thesis
    unfolding entry_ok_def using cd(1,3,4) by blast
qed

lemma sched_inv_advance:
  assumes v: "valid_instance inst" and w: "wf_state inst st" and inv: "sched_inv inst st"
    and c: "candidate inst st c"
  shows "sched_inv inst (advance inst st c)"
proof -
  note cd = candidateD[OF v w c]
  let ?new = "\<lparr>entry_job_id = Some (int (best_job c)),
            entry_operation_id = Some (int (job_operation_idx st ! best_job c)),
            machine = Some (best_machine c),
            start_time = Some (best_start_time c),
            completion_time = Some (best_completion_time c)\<rparr>"
  let ?sched = "schedule_so_far st"
  have sched': "schedule_so_far (advance inst st c) = ?sched @ [?new]"
    by (simp add: advance_def)
  have lens: "length (job_operation_idx st) = num_jobs inst"
    using wf_stateD[OF w] by simp
  have ok: "\<forall>e\<in>set ?sched. entry_ok inst st e"
    and sj: "sorted_wrt job_before ?sched" and sm: "sorted_wrt machine_before ?sched"
    and cov: "\<forall>j<num_jobs inst. \<forall>k<job_operation_idx st ! j.
         \<exists>e\<in>set ?sched. entry_job_id e = Some (int j) \<and> entry_operation_id e = Some (int k)"
    using inv by (simp_all add: sched_inv_def)
  have 1: "\<forall>e\<in>set (?sched @ [?new]). entry_ok inst (advance inst st c) e"
    using ok entry_ok_advance_old[OF v w c] entry_ok_advance_new[OF v w c] by auto
  have jb: "job_before e ?new" if "e \<in> set ?sched" for e
  proof -
    from ok that obtain j k m s t where
      eq: "e = \<lparr>entry_job_id = Some (int j), entry_operation_id = Some (int k),
             machine = Some m, start_time = Some s, completion_time = Some t\<rparr>"
      and k: "k < job_operation_idx st ! j" and t: "t \<le> job_completion st ! j"
      unfolding entry_ok_def by blast
    show ?thesis using k t cd(6) by (auto simp: job_before_def eq)
  qed
  have mb: "machine_before e ?new" if "e \<in> set ?sched" for e
  proof -
    from ok that obtain j k m s t where
      eq: "e = \<lparr>entry_job_id = Some (int j), entry_operation_id = Some (int k),
             machine = Some m, start_time = Some s, completion_time = Some t\<rparr>"
      and t: "s \<le> t" "t \<le> machine_available st ! nat m"
      unfolding entry_ok_def by blast
    show ?thesis using t cd(6) by (auto simp: machine_before_def eq)
  qed
  have 2: "sorted_wrt job_before (?sched @ [?new])"
    using sj jb by (simp add: sorted_wrt_append)
  have 3: "sorted_wrt machine_before (?sched @ [?new])"
    using sm mb by (simp add: sorted_wrt_append)
  have 4: "\<exists>e\<in>set (?sched @ [?new]).
             entry_job_id e = Some (int j) \<and> entry_operation_id e = Some (int k)"
    if j: "j < num_jobs inst" and k: "k < job_operation_idx (advance inst st c) ! j" for j k
  proof (cases "j = best_job c \<and> k = job_operation_idx st ! best_job c")
    case True
    then show ?thesis by simp
  next
    case False
    then have "k < job_operation_idx st ! j"
      using k j lens cd(1) by (auto simp: advance_def nth_list_update split: if_splits)
    then show ?thesis using cov j by auto
  qed
  show ?thesis
    unfolding sched_inv_def sched' using 1 2 3 4 by blast
qed

lemma wf_state_initial: "wf_state inst (initial_state inst)"
  by (simp add: wf_state_def initial_state_def list_all_iff)

lemma sched_inv_initial: "sched_inv inst (initial_state inst)"
  by (simp add: sched_inv_def initial_state_def)

section \<open>The validator accepts the schedule of the heuristic\<close>

lemma op_key_eq: "has_key e \<Longrightarrow> op_key e = Inr (key_of e)"
  by (auto simp: has_key_def key_of_def op_key_def field_def)

lemma collect_scheduled_ops_eq:
  assumes "\<forall>e\<in>set xs. has_key e"
  shows "collect_scheduled_ops xs S = Inr (S \<union> key_of ` set xs)"
  using assms by (induction xs arbitrary: S) (auto simp: op_key_eq)

lemma required_ops_aux_mem:
  "(j, k) \<in> set (concat (map (\<lambda>(j, jb). map (\<lambda>k. (j, k)) [0..<length (operations jb)])
                              (enumerate n js))) \<longleftrightarrow>
   n \<le> j \<and> j < n + length js \<and> k < length (operations (js ! (j - n)))"
  (is "?lhs \<longleftrightarrow> ?rhs")
proof
  assume ?lhs
  then obtain i jb where x: "(i, jb) \<in> set (enumerate n js)"
    and m: "(j, k) \<in> set (map (\<lambda>k. (i, k)) [0..<length (operations jb)])"
    by auto
  from m have "i = j" "k < length (operations jb)" by auto
  with x show ?rhs by (auto simp: in_set_enumerate_eq)
next
  assume r: ?rhs
  then have "(j, js ! (j - n)) \<in> set (enumerate n js)"
    by (simp add: in_set_enumerate_eq)
  moreover have "(j, k) \<in> set (map (\<lambda>k. (j, k)) [0..<length (operations (js ! (j - n)))])"
    using r by simp
  ultimately have "\<exists>x\<in>set (enumerate n js).
      (j, k) \<in> set ((\<lambda>(j, jb). map (\<lambda>k. (j, k)) [0..<length (operations jb)]) x)"
    by (intro bexI[of _ "(j, js ! (j - n))"]) simp_all
  then show ?lhs by simp
qed

lemma set_required_ops:
  "set (required_ops inst) =
   {(j, k). j < length (jobs inst) \<and> k < length (operations (jobs inst ! j))}"
proof (rule set_eqI)
  fix p :: "nat \<times> nat"
  show "p \<in> set (required_ops inst) \<longleftrightarrow>
        p \<in> {(j, k). j < length (jobs inst) \<and> k < length (operations (jobs inst ! j))}"
    using required_ops_aux_mem[of "fst p" "snd p" 0 "jobs inst"]
    by (cases p) (simp add: required_ops_def)
qed

lemma required_ops_aux_distinct:
  "distinct (concat (map (\<lambda>(j, jb). map (\<lambda>k. (j, k)) [0..<length (operations jb)])
                         (enumerate n js)))"
proof (induction js arbitrary: n)
  case Nil
  then show ?case by simp
next
  case (Cons a js)
  have "distinct (map (\<lambda>k. (n, k)) [0..<length (operations a)])"
    by (simp add: distinct_map inj_on_def)
  then show ?case
    using Cons.IH[of "Suc n"] by (auto simp: in_set_enumerate_eq)
qed

lemma distinct_required_ops: "distinct (required_ops inst)"
  by (simp add: required_ops_def required_ops_aux_distinct)

lemma required_ops_aux_length:
  "length (concat (map (\<lambda>(j, jb). map (\<lambda>k. (j, k)) [0..<length (operations jb)])
                       (enumerate n js))) =
   sum_list (map (\<lambda>jb. length (operations jb)) js)"
  by (induction js arbitrary: n) simp_all

lemma length_required_ops: "length (required_ops inst) = total_required_ops inst"
  by (simp add: required_ops_def total_required_ops_def required_ops_aux_length)

lemma card_required_keys:
  "card ((\<lambda>p. (int (fst p), int (snd p))) ` set (required_ops inst)) = total_required_ops inst"
proof -
  have "inj_on (\<lambda>p :: nat \<times> nat. (int (fst p), int (snd p))) (set (required_ops inst))"
    by (auto simp: inj_on_def)
  then show ?thesis
    by (simp add: card_image distinct_card[OF distinct_required_ops] length_required_ops)
qed

lemma select_entries_eq:
  assumes "\<forall>e\<in>set xs. f e \<noteq> None"
  shows "select_entries name f v xs = Inr (filter (\<lambda>e. f e = Some v) xs)"
  using assms by (induction xs) (auto simp: field_def)

lemma py_sort_sorted:
  assumes "\<forall>e\<in>set xs. f e \<noteq> None" "sorted (map (\<lambda>x. the (f x)) xs)"
  shows "py_sort name f xs = Inr xs"
proof -
  have "List.find (\<lambda>x. f x = None) xs = None"
    using assms(1) by (simp add: find_None_iff)
  then show ?thesis
    using sort_key_id_if_sorted[OF assms(2)] by (simp add: py_sort_def)
qed

lemma first_overlap_none:
  assumes "\<forall>e\<in>set xs. start_time e \<noteq> None \<and> completion_time e \<noteq> None"
    and "sorted_wrt (\<lambda>a b. the (completion_time a) \<le> the (start_time b)) xs"
  shows "first_overlap xs = Inr None"
  using assms
proof (induction xs rule: first_overlap.induct)
  case (1 a b rest)
  then show ?case by (auto simp: field_def)
qed simp_all

lemma first_failure_none:
  assumes "\<forall>i\<in>set is. chk i = Inr None"
  shows "first_failure chk is = Inr None"
  using assms by (induction "is") simp_all

lemma filtered_chain:
  assumes "sorted_wrt R sched"
    and "\<And>a b. f a = Some v \<Longrightarrow> f b = Some v \<Longrightarrow> R a b \<Longrightarrow>
           key a \<le> key b \<and> the (completion_time a) \<le> the (start_time b)"
  shows "sorted (map key (filter (\<lambda>e. f e = Some v) sched))"
    and "sorted_wrt (\<lambda>a b. the (completion_time a) \<le> the (start_time b))
           (filter (\<lambda>e. f e = Some v) sched)"
proof -
  let ?xs = "filter (\<lambda>e. f e = Some v) sched"
  have R: "sorted_wrt R ?xs" using assms(1) by (rule sorted_wrt_filter)
  have "sorted_wrt (\<lambda>a b. key a \<le> key b) ?xs"
    by (rule sorted_wrt_mono_rel[OF _ R]) (use assms(2) in auto)
  then show "sorted (map key ?xs)" by (simp add: sorted_wrt_map)
  show "sorted_wrt (\<lambda>a b. the (completion_time a) \<le> the (start_time b)) ?xs"
    by (rule sorted_wrt_mono_rel[OF _ R]) (use assms(2) in auto)
qed

lemma check_job_order_ok:
  assumes "\<forall>e\<in>set sched. complete_entry e" "sorted_wrt job_before sched"
  shows "check_job_order sched j = Inr None"
proof -
  let ?xs = "filter (\<lambda>e. entry_job_id e = Some (int j)) sched"
  have sel: "select_entries ''job_id'' entry_job_id (int j) sched = Inr ?xs"
    by (rule select_entries_eq) (use assms(1) in \<open>simp add: complete_entry_def\<close>)
  have ch: "sorted (map (\<lambda>x. the (entry_operation_id x)) ?xs)"
    "sorted_wrt (\<lambda>a b. the (completion_time a) \<le> the (start_time b)) ?xs"
    by (rule filtered_chain[OF assms(2), where key = "\<lambda>x. the (entry_operation_id x)"];
        simp add: job_before_def)+
  have srt: "py_sort ''operation_id'' entry_operation_id ?xs = Inr ?xs"
    by (rule py_sort_sorted[OF _ ch(1)]) (use assms(1) in \<open>simp add: complete_entry_def\<close>)
  have ov: "first_overlap ?xs = Inr None"
    by (rule first_overlap_none[OF _ ch(2)]) (use assms(1) in \<open>simp add: complete_entry_def\<close>)
  show ?thesis by (simp add: check_job_order_def sel srt ov)
qed

lemma check_machine_ok:
  assumes "\<forall>e\<in>set sched. complete_entry e" "sorted_wrt machine_before sched"
  shows "check_machine sched m = Inr None"
proof -
  let ?xs = "filter (\<lambda>e. machine e = Some (int m)) sched"
  have sel: "select_entries ''machine'' machine (int m) sched = Inr ?xs"
    by (rule select_entries_eq) (use assms(1) in \<open>simp add: complete_entry_def\<close>)
  have ch: "sorted (map (\<lambda>x. the (start_time x)) ?xs)"
    "sorted_wrt (\<lambda>a b. the (completion_time a) \<le> the (start_time b)) ?xs"
    by (rule filtered_chain[OF assms(2), where key = "\<lambda>x. the (start_time x)"];
        simp add: machine_before_def)+
  have srt: "py_sort ''start_time'' start_time ?xs = Inr ?xs"
    by (rule py_sort_sorted[OF _ ch(1)]) (use assms(1) in \<open>simp add: complete_entry_def\<close>)
  have ov: "first_overlap ?xs = Inr None"
    by (rule first_overlap_none[OF _ ch(2)]) (use assms(1) in \<open>simp add: complete_entry_def\<close>)
  show ?thesis by (simp add: check_machine_def sel srt ov)
qed

lemma entry_ok_complete: "entry_ok inst st e \<Longrightarrow> complete_entry e"
  by (auto simp: entry_ok_def complete_entry_def)

lemma final_keys:
  assumes v: "valid_instance inst" and inv: "sched_inv inst st"
    and fin: "\<forall>j<num_jobs inst. job_operation_idx st ! j = length (operations (jobs inst ! j))"
  shows "key_of ` set (schedule_so_far st) =
         (\<lambda>p. (int (fst p), int (snd p))) ` set (required_ops inst)"
proof -
  have len: "length (jobs inst) = num_jobs inst"
    using v by (simp add: valid_instance_def)
  show ?thesis
  proof (intro equalityI subsetI)
    fix x assume "x \<in> key_of ` set (schedule_so_far st)"
    then obtain e where e: "e \<in> set (schedule_so_far st)" and x: "x = key_of e" by blast
    from inv e have "entry_ok inst st e" by (simp add: sched_inv_def)
    then obtain j k where "key_of e = (int j, int k)" "j < num_jobs inst"
      "k < job_operation_idx st ! j"
      by (auto simp: entry_ok_def key_of_def)
    then have "(j, k) \<in> set (required_ops inst)" "x = (int j, int k)"
      using fin len x by (simp_all add: set_required_ops)
    then show "x \<in> (\<lambda>p. (int (fst p), int (snd p))) ` set (required_ops inst)"
      by force
  next
    fix x assume "x \<in> (\<lambda>p. (int (fst p), int (snd p))) ` set (required_ops inst)"
    then obtain j k where x: "x = (int j, int k)" and j: "j < num_jobs inst"
      and k: "k < length (operations (jobs inst ! j))"
      using len by (auto simp: set_required_ops)
    from inv j k fin obtain e where "e \<in> set (schedule_so_far st)"
      "entry_job_id e = Some (int j)" "entry_operation_id e = Some (int k)"
      unfolding sched_inv_def by force
    then show "x \<in> key_of ` set (schedule_so_far st)"
      unfolding x by (force simp: key_of_def)
  qed
qed

lemma validate_solution_final:
  assumes v: "valid_instance inst" and inv: "sched_inv inst st"
    and fin: "\<forall>j<num_jobs inst. job_operation_idx st ! j = length (operations (jobs inst ! j))"
    and sol: "schedule solution = Some (schedule_so_far st)"
  shows "validate_solution inst solution = Inr (True, None)"
proof -
  let ?sched = "schedule_so_far st"
  let ?K = "(\<lambda>p :: nat \<times> nat. (int (fst p), int (snd p))) ` set (required_ops inst)"
  have ce: "\<forall>e\<in>set ?sched. complete_entry e"
    using inv entry_ok_complete by (auto simp: sched_inv_def)
  then have hk: "\<forall>e\<in>set ?sched. has_key e"
    by (simp add: complete_entry_def has_key_def)
  have coll: "collect_scheduled_ops ?sched {} = Inr ?K"
    using collect_scheduled_ops_eq[OF hk, of "{}"] final_keys[OF v inv fin] by simp
  have fnd: "List.find (not_scheduled ?K) (required_ops inst) = None"
    by (force simp: find_None_iff not_scheduled_def)
  have crd: "card ?K = total_required_ops inst" by (rule card_required_keys)
  have jobs_ok: "first_failure (check_job_order ?sched) [0..<num_jobs inst] = Inr None"
    by (rule first_failure_none) (use inv ce in \<open>simp add: check_job_order_ok sched_inv_def\<close>)
  have mach_ok: "first_failure (check_machine ?sched) [0..<num_machines inst] = Inr None"
    by (rule first_failure_none) (use inv ce in \<open>simp add: check_machine_ok sched_inv_def\<close>)
  show ?thesis
    by (simp add: validate_solution_def sol coll fnd crd jobs_ok mach_ok)
qed

lemma py_max_nonempty: "xs \<noteq> [] \<Longrightarrow> \<exists>m. py_max xs = Inr m"
  by (cases xs) (simp_all add: py_max_def)

lemma spt_terminates_with_invariant:
  assumes v: "valid_instance inst"
  shows "\<exists>st m. spt_while inst (initial_state inst) = Some (Inr st) \<and>
           wf_state inst st \<and> sched_inv inst st \<and>
           (\<forall>j<num_jobs inst. job_operation_idx st ! j = length (operations (jobs inst ! j))) \<and>
           finish st = Inr \<lparr>makespan = Fin m, schedule = Some (schedule_so_far st),
                            algorithm_type = Some ''shortest_processing_time'',
                            error = None, execution_time = None\<rparr>"
proof -
  have "\<exists>st'. spt_while inst (initial_state inst) = Some (Inr st') \<and> wf_state inst st' \<and>
           sched_inv inst st' \<and>
           (\<forall>j<num_jobs inst.
              job_operation_idx st' ! j = length (operations (jobs inst ! j)))"
    by (rule spt_while_rule[where P = "sched_inv inst", OF v _ wf_state_initial
                             sched_inv_initial])
       (rule sched_inv_advance[OF v])
  then obtain st where st: "spt_while inst (initial_state inst) = Some (Inr st)"
    "wf_state inst st" "sched_inv inst st"
    "\<forall>j<num_jobs inst. job_operation_idx st ! j = length (operations (jobs inst ! j))"
    by blast
  have "job_completion st \<noteq> []"
    using wf_stateD(3)[OF st(2)] v by (auto simp: valid_instance_def)
  then obtain m where "py_max (job_completion st) = Inr m"
    using py_max_nonempty by blast
  then have "finish st = Inr \<lparr>makespan = Fin m, schedule = Some (schedule_so_far st),
                            algorithm_type = Some ''shortest_processing_time'',
                            error = None, execution_time = None\<rparr>"
    by (simp add: finish_def)
  with st show ?thesis by blast
qed

text \<open>
  Claim C1 (validator soundness). On every instance that satisfies the instance
  invariants (a positive number of jobs, \<^verbatim>\<open>jobs\<close> of length \<^verbatim>\<open>num_jobs\<close>, every
  \<^verbatim>\<open>operation_id\<close> the index of the operation in its job, every operation with at least
  one eligible machine, every eligible machine in \<open>[0, num_machines)\<close> and with a
  strictly positive duration) \<^verbatim>\<open>shortest_processing_time\<close> returns a result, and
  \<^verbatim>\<open>validate_solution\<close> returns \<^verbatim>\<open>(True, None)\<close> on it.
\<close>

theorem spt_schedule_passes_validation:
  assumes "valid_instance inst"
  shows "\<exists>res. shortest_processing_time inst = Some (Inr res) \<and>
               validate_solution inst res = Inr (True, None)"
proof -
  from spt_terminates_with_invariant[OF assms] obtain st m where
    run: "spt_while inst (initial_state inst) = Some (Inr st)"
    and inv: "sched_inv inst st"
    and fin: "\<forall>j<num_jobs inst. job_operation_idx st ! j = length (operations (jobs inst ! j))"
    and res: "finish st = Inr \<lparr>makespan = Fin m, schedule = Some (schedule_so_far st),
                            algorithm_type = Some ''shortest_processing_time'',
                            error = None, execution_time = None\<rparr>"
    by blast
  let ?res = "\<lparr>makespan = Fin m, schedule = Some (schedule_so_far st),
               algorithm_type = Some ''shortest_processing_time'',
               error = None, execution_time = None\<rparr>"
  have "shortest_processing_time inst = Some (Inr ?res)"
    by (simp add: shortest_processing_time_def run res)
  moreover have "validate_solution inst ?res = Inr (True, None)"
    by (rule validate_solution_final[OF assms inv fin]) simp
  ultimately show ?thesis by blast
qed

theorem spt_schedule_passes_validation_witness:
  "valid_instance scenario_instance \<and>
   (\<exists>res. shortest_processing_time scenario_instance = Some (Inr res) \<and>
          validate_solution scenario_instance res = Inr (True, None))"
proof -
  have h: "valid_instance scenario_instance"
    by (simp add: valid_instance_def valid_job_def valid_operation_def scenario_instance_def)
  show ?thesis using h spt_schedule_passes_validation[OF h] by simp
qed

section \<open>Completeness of the schedule\<close>

lemma distinct_map_sorted_wrt:
  "sorted_wrt (\<lambda>a b. f a \<noteq> f b) xs \<Longrightarrow> distinct (map f xs)"
  by (induction xs) auto

lemma count_one_of_distinct:
  "distinct (map f xs) \<Longrightarrow> k \<in> f ` set xs \<Longrightarrow> length (filter (\<lambda>x. f x = k) xs) = 1"
proof (induction xs)
  case Nil
  then show ?case by simp
next
  case (Cons a xs)
  show ?case
  proof (cases "f a = k")
    case True
    have "f a \<notin> f ` set xs" using Cons.prems(1) by simp
    then have "\<forall>x\<in>set xs. f x \<noteq> k" using True by blast
    then have "filter (\<lambda>x. f x = k) xs = []"
      by (simp add: filter_empty_conv)
    then show ?thesis using True by simp
  next
    case False
    then show ?thesis using Cons by auto
  qed
qed

lemma job_before_keys:
  assumes "complete_entry a" "complete_entry b" "job_before a b"
  shows "key_of a \<noteq> key_of b"
  using assms by (auto simp: complete_entry_def job_before_def key_of_def)

lemma sched_inv_distinct_keys:
  assumes "sched_inv inst st"
  shows "distinct (map key_of (schedule_so_far st))"
proof (rule distinct_map_sorted_wrt)
  have ce: "\<forall>e\<in>set (schedule_so_far st). complete_entry e"
    using assms entry_ok_complete by (auto simp: sched_inv_def)
  have "sorted_wrt job_before (schedule_so_far st)"
    using assms by (simp add: sched_inv_def)
  then show "sorted_wrt (\<lambda>a b. key_of a \<noteq> key_of b) (schedule_so_far st)"
    by (rule sorted_wrt_mono_rel[rotated]) (use ce job_before_keys in blast)
qed

text \<open>
  Claim C2 (completeness). On every instance that satisfies the instance invariants the
  schedule returned by \<^verbatim>\<open>shortest_processing_time\<close> has as many entries as the instance
  has operations, every entry carries the key of a \<^verbatim>\<open>(job_id, operation_id)\<close> pair of
  the instance, and every pair of the instance is the key of exactly one entry.
\<close>

theorem spt_schedule_complete:
  assumes "valid_instance inst"
  shows "\<exists>res sched.
           shortest_processing_time inst = Some (Inr res) \<and>
           schedule res = Some sched \<and>
           length sched = total_required_ops inst \<and>
           (\<forall>e\<in>set sched. \<exists>p\<in>set (required_ops inst).
              op_key e = Inr (int (fst p), int (snd p))) \<and>
           (\<forall>p\<in>set (required_ops inst).
              length (filter (\<lambda>e. op_key e = Inr (int (fst p), int (snd p))) sched) = 1)"
proof -
  from spt_terminates_with_invariant[OF assms] obtain st m where
    run: "spt_while inst (initial_state inst) = Some (Inr st)"
    and inv: "sched_inv inst st"
    and fin: "\<forall>j<num_jobs inst. job_operation_idx st ! j = length (operations (jobs inst ! j))"
    and res: "finish st = Inr \<lparr>makespan = Fin m, schedule = Some (schedule_so_far st),
                            algorithm_type = Some ''shortest_processing_time'',
                            error = None, execution_time = None\<rparr>"
    by blast
  let ?sched = "schedule_so_far st"
  let ?res = "\<lparr>makespan = Fin m, schedule = Some ?sched,
               algorithm_type = Some ''shortest_processing_time'',
               error = None, execution_time = None\<rparr>"
  let ?K = "(\<lambda>p :: nat \<times> nat. (int (fst p), int (snd p))) ` set (required_ops inst)"
  have spt: "shortest_processing_time inst = Some (Inr ?res)"
    by (simp add: shortest_processing_time_def run res)
  have hk: "\<forall>e\<in>set ?sched. has_key e"
    using inv entry_ok_complete by (auto simp: sched_inv_def complete_entry_def has_key_def)
  have keys: "key_of ` set ?sched = ?K" by (rule final_keys[OF assms inv fin])
  have dist: "distinct (map key_of ?sched)" by (rule sched_inv_distinct_keys[OF inv])
  have "length ?sched = card (key_of ` set ?sched)"
    using distinct_card[OF dist] by simp
  then have 1: "length ?sched = total_required_ops inst"
    by (simp add: keys card_required_keys)
  have 2: "\<exists>p\<in>set (required_ops inst). op_key e = Inr (int (fst p), int (snd p))"
    if "e \<in> set ?sched" for e
  proof -
    have "key_of e \<in> ?K" using that keys by blast
    then show ?thesis using hk that by (auto simp: op_key_eq)
  qed
  have 3: "length (filter (\<lambda>e. op_key e = Inr (int (fst p), int (snd p))) ?sched) = 1"
    if "p \<in> set (required_ops inst)" for p
  proof -
    have "(int (fst p), int (snd p)) \<in> key_of ` set ?sched"
      using that keys by blast
    then have "length (filter (\<lambda>e. key_of e = (int (fst p), int (snd p))) ?sched) = 1"
      by (rule count_one_of_distinct[OF dist])
    moreover have "filter (\<lambda>e. op_key e = Inr (int (fst p), int (snd p))) ?sched =
                   filter (\<lambda>e. key_of e = (int (fst p), int (snd p))) ?sched"
      by (rule filter_cong) (use hk in \<open>simp_all add: op_key_eq\<close>)
    ultimately show ?thesis by simp
  qed
  show ?thesis using spt 1 2 3 by (intro exI[of _ ?res] exI[of _ ?sched]) simp
qed

theorem spt_schedule_complete_witness:
  "valid_instance scenario_instance \<and>
   (\<exists>res sched.
      shortest_processing_time scenario_instance = Some (Inr res) \<and>
      schedule res = Some sched \<and>
      length sched = total_required_ops scenario_instance \<and>
      (\<forall>e\<in>set sched. \<exists>p\<in>set (required_ops scenario_instance).
         op_key e = Inr (int (fst p), int (snd p))) \<and>
      (\<forall>p\<in>set (required_ops scenario_instance).
         length (filter (\<lambda>e. op_key e = Inr (int (fst p), int (snd p))) sched) = 1))"
proof -
  have h: "valid_instance scenario_instance"
    by (simp add: valid_instance_def valid_job_def valid_operation_def scenario_instance_def)
  show ?thesis using h spt_schedule_complete[OF h] by simp
qed

section \<open>The concrete scenario\<close>

lemmas spt_eval =
  shortest_processing_time_def initial_state_def spt_while.simps spt_iteration_def
  commit_def py_index_def py_store_def improves_def finish_def py_max_def
  upt_rec[of 0] upt_rec[of "Suc _"] numeral_2_eq_2 numeral_3_eq_3

lemmas validate_eval =
  validate_solution_def mk_solution_def mk_entry_def op_key_def field_def required_ops_def
  total_required_ops_def not_scheduled_def check_job_order_def check_machine_def
  py_sort_def upt_rec[of 0] upt_rec[of "Suc _"] numeral_2_eq_2 numeral_3_eq_3

text \<open>
  Claim C8 (concrete scenario). On the instance with one machine and two jobs of one
  operation each, of durations 10 and 5 and eligible on machine 0 only,
  \<^verbatim>\<open>shortest_processing_time\<close> schedules the operation of duration 5 first, from 0 to 5,
  then the operation of duration 10, from 5 to 15, and returns the makespan 15.
\<close>

theorem spt_scenario_one_machine:
  "shortest_processing_time scenario_instance =
     Some (Inr \<lparr>makespan = Fin 15,
                schedule = Some [mk_entry 1 0 0 0 5, mk_entry 0 0 0 5 15],
                algorithm_type = Some ''shortest_processing_time'',
                error = None, execution_time = None\<rparr>)"
  by (simp add: scenario_instance_def mk_entry_def spt_eval)

section \<open>Duplicate and foreign entries in the validator\<close>

text \<open>
  Claim C3 (duplicates), at a failing input. The instance has two machines and one job of
  one operation; the schedule holds that operation twice, on machine 0 from 0 to 5 and on
  machine 1 from 5 to 10. The set of scheduled keys has one element, the instance
  requires one operation, so the comparison of line 207 finds nothing and the validator
  returns \<^verbatim>\<open>(True, None)\<close>, not the failure \<^verbatim>\<open>"Schedule contains duplicate operations"\<close>.
\<close>

theorem validate_accepts_duplicated_operation:
  "validate_solution single_op_instance (mk_solution duplicated_schedule) = Inr (True, None)"
  by (simp add: single_op_instance_def duplicated_schedule_def validate_eval)

lemma collect_scheduled_ops_keys:
  assumes "\<forall>e\<in>set xs. \<exists>k. op_key e = Inr k"
  shows "collect_scheduled_ops xs S = Inr (S \<union> {k. \<exists>e\<in>set xs. op_key e = Inr k})"
  using assms
proof (induction xs arbitrary: S)
  case Nil
  then show ?case by simp
next
  case (Cons a xs)
  from Cons.prems obtain k where k: "op_key a = Inr k" by auto
  have "insert k S \<union> {k. \<exists>e\<in>set xs. op_key e = Inr k} =
        S \<union> {k'. \<exists>e\<in>set (a # xs). op_key e = Inr k'}"
    using k by auto
  then show ?case using Cons.IH[of "insert k S"] Cons.prems k by simp
qed

lemma finite_scheduled_keys: "finite {k. \<exists>e\<in>set xs. op_key e = Inr k}"
proof -
  have "{k. \<exists>e\<in>set xs. op_key e = Inr k} \<subseteq> (\<lambda>e. projr (op_key e)) ` set xs"
    by force
  then show ?thesis by (rule finite_subset) simp
qed

text \<open>
  Claim C10 (foreign entries). When every entry of the schedule has a key, every
  \<^verbatim>\<open>(job_id, operation_id)\<close> pair of the instance is the key of exactly one entry, and
  some entry has a key that is no pair of the instance, \<^verbatim>\<open>validate_solution\<close> returns
  \<^verbatim>\<open>(False, "Schedule contains duplicate operations")\<close>.
\<close>

theorem validate_rejects_foreign_entry:
  assumes "schedule solution = Some sched"
    and "\<forall>e\<in>set sched. \<exists>k. op_key e = Inr k"
    and "\<forall>p\<in>set (required_ops inst).
           length (filter (\<lambda>e. op_key e = Inr (int (fst p), int (snd p))) sched) = 1"
    and "\<exists>e\<in>set sched. \<exists>k. op_key e = Inr k \<and>
           k \<notin> (\<lambda>p. (int (fst p), int (snd p))) ` set (required_ops inst)"
  shows "validate_solution inst solution =
           Inr (False, Some ''Schedule contains duplicate operations'')"
proof -
  let ?S = "{k. \<exists>e\<in>set sched. op_key e = Inr k}"
  let ?K = "(\<lambda>p :: nat \<times> nat. (int (fst p), int (snd p))) ` set (required_ops inst)"
  have coll: "collect_scheduled_ops sched {} = Inr ?S"
    using collect_scheduled_ops_keys[OF assms(2), of "{}"] by simp
  have sub: "?K \<subseteq> ?S"
  proof
    fix k assume "k \<in> ?K"
    then obtain p where p: "p \<in> set (required_ops inst)" and k: "k = (int (fst p), int (snd p))"
      by blast
    from assms(3) p have "filter (\<lambda>e. op_key e = Inr (int (fst p), int (snd p))) sched \<noteq> []"
      by force
    then obtain e where "e \<in> set sched" "op_key e = Inr (int (fst p), int (snd p))"
      by (auto simp: filter_empty_conv)
    then show "k \<in> ?S" unfolding k by blast
  qed
  have fnd: "List.find (not_scheduled ?S) (required_ops inst) = None"
    unfolding find_None_iff not_scheduled_def using sub by blast
  from assms(4) obtain k where "k \<in> ?S" "k \<notin> ?K" by blast
  with sub have "?K \<subset> ?S" by blast
  then have "card ?K < card ?S"
    by (rule psubset_card_mono[OF finite_scheduled_keys])
  then have crd: "card ?S \<noteq> total_required_ops inst"
    by (simp add: card_required_keys)
  show ?thesis
    using crd by (simp add: validate_solution_def assms(1) coll fnd)
qed

theorem validate_rejects_foreign_entry_witness:
  "schedule (mk_solution foreign_schedule) = Some foreign_schedule \<and>
   (\<exists>e\<in>set foreign_schedule. \<exists>k. op_key e = Inr k \<and>
      k \<notin> (\<lambda>p. (int (fst p), int (snd p))) ` set (required_ops single_op_instance)) \<and>
   validate_solution single_op_instance (mk_solution foreign_schedule) =
     Inr (False, Some ''Schedule contains duplicate operations'')"
proof -
  have h1: "schedule (mk_solution foreign_schedule) = Some foreign_schedule"
    by (simp add: mk_solution_def)
  have h2: "\<forall>e\<in>set foreign_schedule. \<exists>k. op_key e = Inr k"
    by (simp add: foreign_schedule_def mk_entry_def op_key_def field_def)
  have h3: "\<forall>p\<in>set (required_ops single_op_instance).
      length (filter (\<lambda>e. op_key e = Inr (int (fst p), int (snd p))) foreign_schedule) = 1"
    by (simp add: required_ops_def single_op_instance_def foreign_schedule_def mk_entry_def
        op_key_def field_def)
  have h4: "\<exists>e\<in>set foreign_schedule. \<exists>k. op_key e = Inr k \<and>
      k \<notin> (\<lambda>p. (int (fst p), int (snd p))) ` set (required_ops single_op_instance)"
    by (simp add: required_ops_def single_op_instance_def foreign_schedule_def mk_entry_def
        op_key_def field_def)
  show ?thesis
    using h1 h4 validate_rejects_foreign_entry[OF h1 h2 h3 h4] by simp
qed

section \<open>The validator on complete and incomplete entries\<close>

lemma py_sort_total:
  assumes "\<forall>e\<in>set xs. f e \<noteq> None"
  shows "py_sort name f xs = Inr (sort_key (\<lambda>x. the (f x)) xs)"
proof -
  have "List.find (\<lambda>x. f x = None) xs = None"
    using assms by (simp add: find_None_iff)
  then show ?thesis by (simp add: py_sort_def)
qed

lemma first_overlap_total:
  assumes "\<forall>e\<in>set xs. complete_entry e"
  shows "\<exists>r. first_overlap xs = Inr r \<and> (\<forall>b. r = Some b \<longrightarrow> b \<in> set xs)"
  using assms
proof (induction xs rule: first_overlap.induct)
  case (1 a b rest)
  obtain c s where cs: "completion_time a = Some c" "start_time b = Some s"
    using "1.prems" by (auto simp: complete_entry_def)
  show ?case
  proof (cases "c > s")
    case True
    then show ?thesis by (simp add: cs field_def)
  next
    case False
    then have "first_overlap (a # b # rest) = first_overlap (b # rest)"
      by (simp add: cs field_def)
    moreover have "\<exists>r. first_overlap (b # rest) = Inr r \<and>
                       (\<forall>x. r = Some x \<longrightarrow> x \<in> set (b # rest))"
      using "1.IH"[of c s] False "1.prems" cs by (simp add: field_def)
    ultimately show ?thesis by auto
  qed
qed simp_all

lemma check_job_order_total:
  assumes "\<forall>e\<in>set sched. complete_entry e"
  shows "\<exists>r. check_job_order sched j = Inr r"
proof -
  let ?xs = "filter (\<lambda>e. entry_job_id e = Some (int j)) sched"
  let ?ys = "sort_key (\<lambda>x. the (entry_operation_id x)) ?xs"
  have sel: "select_entries ''job_id'' entry_job_id (int j) sched = Inr ?xs"
    by (rule select_entries_eq) (use assms in \<open>simp add: complete_entry_def\<close>)
  have srt: "py_sort ''operation_id'' entry_operation_id ?xs = Inr ?ys"
    by (rule py_sort_total) (use assms in \<open>simp add: complete_entry_def\<close>)
  have ce: "\<forall>e\<in>set ?ys. complete_entry e" using assms by simp
  from first_overlap_total[OF ce] obtain r where
    r: "first_overlap ?ys = Inr r" "\<forall>b. r = Some b \<longrightarrow> b \<in> set ?ys" by blast
  show ?thesis
  proof (cases r)
    case None
    then show ?thesis by (simp add: check_job_order_def sel srt r(1))
  next
    case (Some b)
    then have "complete_entry b" using r(2) ce by blast
    then obtain k where "entry_operation_id b = Some k"
      by (auto simp: complete_entry_def)
    then show ?thesis
      by (simp add: check_job_order_def sel srt r(1) Some field_def)
  qed
qed

lemma check_machine_total:
  assumes "\<forall>e\<in>set sched. complete_entry e"
  shows "\<exists>r. check_machine sched m = Inr r"
proof -
  let ?xs = "filter (\<lambda>e. machine e = Some (int m)) sched"
  let ?ys = "sort_key (\<lambda>x. the (start_time x)) ?xs"
  have sel: "select_entries ''machine'' machine (int m) sched = Inr ?xs"
    by (rule select_entries_eq) (use assms in \<open>simp add: complete_entry_def\<close>)
  have srt: "py_sort ''start_time'' start_time ?xs = Inr ?ys"
    by (rule py_sort_total) (use assms in \<open>simp add: complete_entry_def\<close>)
  have ce: "\<forall>e\<in>set ?ys. complete_entry e" using assms by simp
  from first_overlap_total[OF ce] obtain r where
    r: "first_overlap ?ys = Inr r" by blast
  show ?thesis
    by (cases r) (simp_all add: check_machine_def sel srt r)
qed

lemma first_failure_total:
  assumes "\<forall>i\<in>set is. \<exists>r. chk i = Inr r"
  shows "\<exists>r. first_failure chk is = Inr r"
  using assms
proof (induction "is")
  case Nil
  then show ?case by simp
next
  case (Cons i "is")
  then obtain r where r: "chk i = Inr r" by auto
  show ?case using Cons r by (cases r) simp_all
qed

text \<open>
  Claim C9 as stated fails: an entry without the key \<^verbatim>\<open>machine\<close> makes the comprehension
  of line 223 raise \<^verbatim>\<open>KeyError\<close>.
\<close>

theorem validate_raises_on_missing_machine:
  "validate_solution single_op_instance (mk_solution schedule_without_machine) =
     Inl (KeyError ''machine'')"
  by (simp add: single_op_instance_def schedule_without_machine_def validate_eval)

text \<open>
  Claim C9, amended. For every instance and every solution whose schedule entries all
  carry the five keys, with integers under \<^verbatim>\<open>job_id\<close>, \<^verbatim>\<open>operation_id\<close> and \<^verbatim>\<open>machine\<close>
  and numbers under \<^verbatim>\<open>start_time\<close> and \<^verbatim>\<open>completion_time\<close> (a solution without the key
  \<^verbatim>\<open>schedule\<close> counts as the empty schedule), \<^verbatim>\<open>validate_solution\<close> raises nothing: it
  returns a verdict, whose reason is \<^verbatim>\<open>None\<close> exactly when the verdict is \<^verbatim>\<open>True\<close>. The
  types of the values are those of the record \<open>entry\<close>; the hypothesis says that the
  keys are present.
\<close>

theorem validate_returns_verdict:
  assumes "list_all complete_entry (case schedule solution of None \<Rightarrow> [] | Some s \<Rightarrow> s)"
  shows "\<exists>ok reason. validate_solution inst solution = Inr (ok, reason) \<and>
                     (ok \<longleftrightarrow> reason = None)"
proof -
  let ?sched = "case schedule solution of None \<Rightarrow> [] | Some s \<Rightarrow> s"
  have ce: "\<forall>e\<in>set ?sched. complete_entry e"
    using assms by (simp add: list_all_iff)
  then have hk: "\<forall>e\<in>set ?sched. has_key e"
    by (simp add: complete_entry_def has_key_def)
  let ?S = "{} \<union> key_of ` set ?sched"
  have coll: "collect_scheduled_ops ?sched {} = Inr ?S"
    by (rule collect_scheduled_ops_eq[OF hk])
  obtain rj where rj: "first_failure (check_job_order ?sched) [0..<num_jobs inst] = Inr rj"
    using first_failure_total[of "[0..<num_jobs inst]" "check_job_order ?sched"]
      check_job_order_total[OF ce] by blast
  obtain rm where rm: "first_failure (check_machine ?sched) [0..<num_machines inst] = Inr rm"
    using first_failure_total[of "[0..<num_machines inst]" "check_machine ?sched"]
      check_machine_total[OF ce] by blast
  show ?thesis
    unfolding validate_solution_def Let_def coll
    by (cases "List.find (not_scheduled ?S) (required_ops inst)"; cases rj; cases rm)
       (auto simp: rj rm)
qed

theorem validate_returns_verdict_witness:
  "list_all complete_entry
     (case schedule (mk_solution duplicated_schedule) of None \<Rightarrow> [] | Some s \<Rightarrow> s) \<and>
   (\<exists>ok reason.
      validate_solution single_op_instance (mk_solution duplicated_schedule) =
        Inr (ok, reason) \<and> (ok \<longleftrightarrow> reason = None))"
proof -
  have h: "list_all complete_entry
     (case schedule (mk_solution duplicated_schedule) of None \<Rightarrow> [] | Some s \<Rightarrow> s)"
    by (simp add: mk_solution_def duplicated_schedule_def mk_entry_def complete_entry_def)
  show ?thesis
    using h validate_returns_verdict[OF h, of single_op_instance] by simp
qed

section \<open>Errors of the scheduling function, the number of machines, infeasible instances\<close>

text \<open>
  Claim C4 as stated fails: the \<^verbatim>\<open>except Exception\<close> of lines 68-69 turns the error of
  the scheduling function into a normal result whose makespan is infinite.
\<close>

theorem run_algorithm_swallows_error:
  "run_algorithm failing_registry 0 1 ''failing'' scenario_instance =
     Some (Inr \<lparr>makespan = PosInf, schedule = None, algorithm_type = None,
                error = Some ''Error running failing: boom'',
                execution_time = Some 1\<rparr>)"
  by (simp add: run_algorithm_def failing_registry_def failing_algorithm_def)

text \<open>
  Claim C4, amended. When the scheduling function invoked by \<^verbatim>\<open>run_algorithm\<close> raises an
  exception, \<^verbatim>\<open>run_algorithm\<close> does not raise: it returns a dictionary whose makespan is
  infinite, whose \<^verbatim>\<open>error\<close> is \<^verbatim>\<open>"Error running <name>: <text of the exception>"\<close> and
  whose \<^verbatim>\<open>execution_time\<close> is the elapsed time.
\<close>

theorem run_algorithm_reports_error:
  assumes "algorithms name = Some alg" and "alg inst = Some (Inl msg)"
  shows "run_algorithm algorithms t_start t_end name inst =
           Some (Inr \<lparr>makespan = PosInf, schedule = None, algorithm_type = None,
                      error = Some (''Error running '' @ name @ '': '' @ msg),
                      execution_time = Some (t_end - t_start)\<rparr>)"
  using assms by (simp add: run_algorithm_def)

theorem run_algorithm_reports_error_witness:
  "failing_registry ''failing'' = Some failing_algorithm \<and>
   failing_algorithm scenario_instance = Some (Inl ''boom'') \<and>
   run_algorithm failing_registry 2 5 ''failing'' scenario_instance =
     Some (Inr \<lparr>makespan = PosInf, schedule = None, algorithm_type = None,
                error = Some (''Error running '' @ ''failing'' @ '': '' @ ''boom''),
                execution_time = Some (5 - 2)\<rparr>)"
proof -
  have h1: "failing_registry ''failing'' = Some failing_algorithm"
    by (simp add: failing_registry_def)
  have h2: "failing_algorithm scenario_instance = Some (Inl ''boom'')"
    by (simp add: failing_algorithm_def)
  show ?thesis
    using h1 h2
      run_algorithm_reports_error[of failing_registry "''failing''" failing_algorithm
        scenario_instance "''boom''" 2 5]
    by simp
qed

lemma sqrt3_bounds: "1 \<le> sqrt 3" "sqrt 3 < 2" "3 / 2 \<le> sqrt 3"
proof -
  show "1 \<le> sqrt 3" by simp
  show "sqrt 3 < 2" by (rule real_less_lsqrt) simp_all
  show "3 / 2 \<le> sqrt 3" by (rule real_le_rsqrt) (simp add: power2_eq_square)
qed

lemma round_sqrt3: "round (sqrt 3) = 2"
  using sqrt3_bounds by (simp add: round_def floor_eq_iff)

lemma floor_sample_sqrt3: "\<lfloor>3900231685776981 / 2251799813685248 :: real\<rfloor> = 1"
  by (simp add: floor_eq_iff)

text \<open>
  Claim C5 as stated fails: with 3 jobs and the exponent 0.5 the power is
  1.7320508075688772; the constructor truncates it to 1, where the power rounded to the
  nearest integer is 2.
\<close>

theorem init_num_machines_truncates:
  "init_num_machines sample_float_pow 3 (1/2) = Inr 1 \<and> spec_num_machines 3 (1/2) = 2"
  by (simp add: init_num_machines_def sample_float_pow_def spec_num_machines_def py_int_def
      powr_half_sqrt floor_sample_sqrt3 round_sqrt3)

lemma max_py_int: "max 1 (py_int p) = max 1 \<lfloor>p\<rfloor>"
proof (cases "0 \<le> p")
  case True
  then show ?thesis by (simp add: py_int_def)
next
  case False
  then have "\<lceil>p\<rceil> \<le> 0" "\<lfloor>p\<rfloor> \<le> 0" by (simp_all add: ceiling_le_iff floor_le_iff)
  then show ?thesis using False by (simp add: py_int_def)
qed

text \<open>
  Claim C5, amended. For every positive \<^verbatim>\<open>num_jobs\<close> and every exponent: when the
  floating-point power \<^verbatim>\<open>num_jobs ** machine_scaling_exponent\<close> raises, the constructor
  raises the same error; when it is the float \<open>p\<close>, the constructor sets \<^verbatim>\<open>num_machines\<close>
  to \<^verbatim>\<open>max(1, floor(p))\<close>: the floating-point power is truncated, not rounded, before
  the maximum with 1 is taken. That value is \<^verbatim>\<open>max(1, round(p))\<close> or one less.
\<close>

theorem init_num_machines_floor:
  assumes "0 < n"
  shows "case float_pow n exponent of
           Inl e \<Rightarrow> init_num_machines float_pow n exponent = Inl e
         | Inr p \<Rightarrow>
             init_num_machines float_pow n exponent = Inr (max 1 \<lfloor>p\<rfloor>) \<and>
             max 1 \<lfloor>p\<rfloor> \<le> max 1 (round p) \<and> max 1 (round p) \<le> max 1 \<lfloor>p\<rfloor> + 1"
proof (cases "float_pow n exponent")
  case (Inl e)
  then show ?thesis by (simp add: init_num_machines_def)
next
  case (Inr p)
  have "\<lfloor>p\<rfloor> \<le> round p" "round p \<le> \<lfloor>p\<rfloor> + 1"
    unfolding round_def by linarith+
  then have "max 1 \<lfloor>p\<rfloor> \<le> max 1 (round p)" "max 1 (round p) \<le> max 1 \<lfloor>p\<rfloor> + 1"
    by linarith+
  then show ?thesis using Inr by (simp add: init_num_machines_def max_py_int)
qed

theorem init_num_machines_floor_witness:
  "(0::int) < 3 \<and>
   sample_float_pow 3 (1/2) = Inr (3900231685776981 / 2251799813685248) \<and>
   init_num_machines sample_float_pow 3 (1/2) =
     Inr (max 1 \<lfloor>3900231685776981 / 2251799813685248 :: real\<rfloor>) \<and>
   init_num_machines sample_float_pow 3 (1/2) = Inr 1"
proof -
  have h: "(0::int) < 3" by simp
  have p: "sample_float_pow 3 (1/2) = Inr (3900231685776981 / 2251799813685248)"
    by (simp add: sample_float_pow_def)
  show ?thesis
    using h p init_num_machines_floor[OF h, of sample_float_pow "1/2"]
    by (simp add: floor_sample_sqrt3)
qed

lemma init_num_machines_float_cases:
  "init_num_machines sample_float_pow 8 (6004799503160661 / 18014398509481984) = Inr 2"
  "init_num_machines sample_float_pow 10 400 = Inl OverflowError"
  by (simp_all add: init_num_machines_def sample_float_pow_def py_int_def)

lemma spt_while_stuck:
  assumes "all_jobs_complete inst st [0..<num_jobs inst] = Inr False"
    and "spt_iteration inst st = Inr st"
  shows "spt_while inst st = None"
proof (rule ccontr)
  assume "spt_while inst st \<noteq> None"
  then obtain y where y: "spt_while inst st = Some y" by auto
  have "\<not> (i = inst \<and> s = st)" if "spt_while i s = Some r" for i s r
  proof (rule spt_while.raw_induct[where P = "\<lambda>i s r. \<not> (i = inst \<and> s = st)", OF _ that])
    fix f i s r
    assume IH: "\<And>i s r. f i s = Some r \<Longrightarrow> \<not> (i = inst \<and> s = st)"
      and body: "(case all_jobs_complete i s [0..<num_jobs i] of
                    Inl e \<Rightarrow> Some (Inl e)
                  | Inr all_done \<Rightarrow>
                      if all_done then Some (Inr s)
                      else case spt_iteration i s of
                             Inl e \<Rightarrow> Some (Inl e)
                           | Inr st' \<Rightarrow> f i st') = Some r"
    show "\<not> (i = inst \<and> s = st)"
    proof
      assume eq: "i = inst \<and> s = st"
      with body assms have "f inst st = Some r" by simp
      from IH[OF this] show False by simp
    qed
  qed
  from this[OF y] show False by simp
qed

text \<open>
  Claim C6 (infeasible instance), at a failing input: one machine and one job whose only
  operation has an empty \<^verbatim>\<open>eligible_machines\<close>. No candidate is found, the body of the
  \<^verbatim>\<open>while\<close> changes nothing and the job stays incomplete: \<^verbatim>\<open>shortest_processing_time\<close>
  never returns, where the claim asks for an \<^verbatim>\<open>InfeasibleInstanceError\<close>.
\<close>

theorem spt_diverges_on_infeasible_instance:
  "shortest_processing_time infeasible_instance = None"
proof -
  have 1: "all_jobs_complete infeasible_instance (initial_state infeasible_instance)
             [0..<num_jobs infeasible_instance] = Inr False"
    by (simp add: infeasible_instance_def initial_state_def)
  have 2: "spt_iteration infeasible_instance (initial_state infeasible_instance) =
             Inr (initial_state infeasible_instance)"
    by (simp add: infeasible_instance_def initial_state_def spt_iteration_def)
  show ?thesis
    by (simp add: shortest_processing_time_def spt_while_stuck[OF 1 2])
qed

section \<open>The makespan on one machine\<close>

lemma sum_list_map_nth: "sum_list (map f xs) = (\<Sum>i<length xs. f (xs ! i))"
  by (induction xs rule: rev_induct) (simp_all add: nth_append)

lemma one_machine_candidate:
  assumes v: "valid_instance inst" and w: "wf_state inst st" and c: "candidate inst st c"
    and one: "num_machines inst = 1"
  shows "best_machine c = 0"
    and "best_processing_time c = operation_work (next_operation inst st (best_job c))"
    and "best_completion_time c =
           max (machine_available st ! 0) (job_completion st ! best_job c) +
           operation_work (next_operation inst st (best_job c))"
proof -
  note cd = candidateD[OF v w c]
  show m: "best_machine c = 0" using cd(3,4) one by simp
  have "processing_times (next_operation inst st (best_job c)) (best_machine c) =
          Some (best_processing_time c)"
    using c by (simp add: candidate_def)
  then show pt: "best_processing_time c = operation_work (next_operation inst st (best_job c))"
    by (simp add: m operation_work_def)
  show "best_completion_time c =
           max (machine_available st ! 0) (job_completion st ! best_job c) +
           operation_work (next_operation inst st (best_job c))"
    using cd(6,7) m pt by simp
qed

lemma scheduled_work_advance:
  assumes w: "wf_state inst st" and c: "candidate inst st c"
  shows "scheduled_work inst (advance inst st c) =
         scheduled_work inst st + operation_work (next_operation inst st (best_job c))"
proof -
  let ?b = "best_job c"
  let ?w = "\<lambda>j k. operation_work (operations (jobs inst ! j) ! k)"
  let ?g = "\<lambda>j. \<Sum>k<job_operation_idx st ! j. ?w j k"
  let ?g' = "\<lambda>j. \<Sum>k<job_operation_idx (advance inst st c) ! j. ?w j k"
  have b: "?b < num_jobs inst" using c by (simp add: candidate_def)
  have len: "length (job_operation_idx st) = num_jobs inst" using wf_stateD(2)[OF w] .
  have same: "?g' j = ?g j" if "j \<noteq> ?b" for j
    using that by (simp add: advance_def)
  have new: "?g' ?b = ?g ?b + ?w ?b (job_operation_idx st ! ?b)"
    using b len by (simp add: advance_def)
  have "(\<Sum>j<num_jobs inst. ?g' j) = ?g' ?b + (\<Sum>j\<in>{..<num_jobs inst} - {?b}. ?g' j)"
    using b by (intro sum.remove) simp_all
  also have "(\<Sum>j\<in>{..<num_jobs inst} - {?b}. ?g' j) = (\<Sum>j\<in>{..<num_jobs inst} - {?b}. ?g j)"
    by (rule sum.cong) (simp_all add: same)
  finally have "(\<Sum>j<num_jobs inst. ?g' j) =
      ?w ?b (job_operation_idx st ! ?b) + (?g ?b + (\<Sum>j\<in>{..<num_jobs inst} - {?b}. ?g j))"
    by (simp add: new)
  also have "?g ?b + (\<Sum>j\<in>{..<num_jobs inst} - {?b}. ?g j) = (\<Sum>j<num_jobs inst. ?g j)"
    using b by (intro sum.remove[symmetric]) simp_all
  finally show ?thesis
    by (simp add: scheduled_work_def next_operation_def)
qed

lemma one_machine_inv_advance:
  assumes v: "valid_instance inst" and one: "num_machines inst = 1"
    and w: "wf_state inst st" and inv: "one_machine_inv inst st" and c: "candidate inst st c"
  shows "one_machine_inv inst (advance inst st c)"
proof -
  note cd = candidateD[OF v w c]
  note oc = one_machine_candidate[OF v w c one]
  let ?b = "best_job c"
  let ?t = "machine_available st ! 0"
  let ?d = "operation_work (next_operation inst st ?b)"
  have lens: "length (machine_available st) = 1" "length (job_completion st) = num_jobs inst"
    using wf_stateD[OF w] one by simp_all
  have le: "\<forall>j<num_jobs inst. job_completion st ! j \<le> ?t"
    and work: "?t = scheduled_work inst st"
    using inv unfolding one_machine_inv_def by blast+
  have d: "0 < ?d" using cd(5) oc(2) by simp
  have ct: "best_completion_time c = ?t + ?d"
    using oc(3) le cd(1) by (simp add: max_absorb1)
  have ma': "machine_available (advance inst st c) ! 0 = ?t + ?d"
    using lens by (simp add: advance_def oc(1) ct)
  have jc': "job_completion (advance inst st c) ! j =
             (if j = ?b then ?t + ?d else job_completion st ! j)" if "j < num_jobs inst" for j
    using that lens cd(1) by (simp add: advance_def ct nth_list_update)
  have 1: "\<forall>j<num_jobs inst.
      job_completion (advance inst st c) ! j \<le> machine_available (advance inst st c) ! 0"
    using le d by (auto simp: jc' ma' intro: order_trans[of _ ?t])
  have 2: "\<exists>j<num_jobs inst.
      job_completion (advance inst st c) ! j = machine_available (advance inst st c) ! 0"
    using cd(1) by (intro exI[of _ ?b]) (simp add: jc' ma')
  have 3: "machine_available (advance inst st c) ! 0 = scheduled_work inst (advance inst st c)"
    by (simp add: ma' scheduled_work_advance[OF w c] work)
  show ?thesis unfolding one_machine_inv_def using 1 2 3 by blast
qed

lemma one_machine_inv_initial:
  assumes "0 < num_jobs inst" "num_machines inst = 1"
  shows "one_machine_inv inst (initial_state inst)"
  using assms by (auto simp: one_machine_inv_def initial_state_def scheduled_work_def)

lemma py_max_Max: "xs \<noteq> [] \<Longrightarrow> py_max xs = Inr (Max (set xs))"
proof (cases xs)
  case Nil
  assume "xs \<noteq> []"
  with Nil show ?thesis by simp
next
  case (Cons a list)
  have "fold max list a = Max (set (a # list))" by (rule Max.set_eq_fold[symmetric])
  then show ?thesis by (simp add: py_max_def Cons)
qed

lemma scheduled_work_final:
  assumes "length (jobs inst) = num_jobs inst"
    and "\<forall>j<num_jobs inst. job_operation_idx st ! j = length (operations (jobs inst ! j))"
  shows "scheduled_work inst st = total_work inst"
proof -
  have "scheduled_work inst st =
        (\<Sum>j<num_jobs inst. \<Sum>k<length (operations (jobs inst ! j)).
           operation_work (operations (jobs inst ! j) ! k))"
    unfolding scheduled_work_def by (rule sum.cong) (simp_all add: assms(2))
  also have "\<dots> = (\<Sum>j<length (jobs inst). job_work (jobs inst ! j))"
    by (simp add: job_work_def sum_list_map_nth assms(1))
  also have "\<dots> = total_work inst"
    by (simp add: total_work_def sum_list_map_nth)
  finally show ?thesis .
qed

lemma single_machine_makespan:
  assumes v: "valid_instance inst" and one: "num_machines inst = 1"
  shows "spt_makespan inst = Some (Fin (total_work inst))"
proof -
  have n: "0 < num_jobs inst" and len: "length (jobs inst) = num_jobs inst"
    using v by (simp_all add: valid_instance_def)
  have "\<exists>st'. spt_while inst (initial_state inst) = Some (Inr st') \<and> wf_state inst st' \<and>
           one_machine_inv inst st' \<and>
           (\<forall>j<num_jobs inst.
              job_operation_idx st' ! j = length (operations (jobs inst ! j)))"
    by (rule spt_while_rule[where P = "one_machine_inv inst", OF v _ wf_state_initial
                             one_machine_inv_initial[OF n one]])
       (rule one_machine_inv_advance[OF v one])
  then obtain st where run: "spt_while inst (initial_state inst) = Some (Inr st)"
    and w: "wf_state inst st" and inv: "one_machine_inv inst st"
    and fin: "\<forall>j<num_jobs inst. job_operation_idx st ! j = length (operations (jobs inst ! j))"
    by blast
  let ?t = "machine_available st ! 0"
  have jlen: "length (job_completion st) = num_jobs inst" using wf_stateD(3)[OF w] .
  then have ne: "job_completion st \<noteq> []" using n by auto
  have le: "\<forall>j<num_jobs inst. job_completion st ! j \<le> ?t"
    and ex: "\<exists>j<num_jobs inst. job_completion st ! j = ?t"
    and work: "?t = scheduled_work inst st"
    using inv unfolding one_machine_inv_def by blast+
  have "Max (set (job_completion st)) = ?t"
  proof (rule Max_eqI)
    show "finite (set (job_completion st))" by simp
    show "y \<le> ?t" if "y \<in> set (job_completion st)" for y
      using that le jlen by (auto simp: in_set_conv_nth)
    show "?t \<in> set (job_completion st)"
      using ex jlen by (auto simp: in_set_conv_nth)
  qed
  then have "py_max (job_completion st) = Inr (total_work inst)"
    using py_max_Max[OF ne] work scheduled_work_final[OF len fin] by simp
  then show ?thesis
    by (simp add: spt_makespan_def shortest_processing_time_def run finish_def)
qed

lemma valid_job_work_nonneg:
  assumes "valid_job 1 jb"
  shows "0 \<le> job_work jb"
proof -
  have "0 \<le> operation_work opn" if "opn \<in> set (operations jb)" for opn
  proof -
    from that obtain k where k: "k < length (operations jb)" "operations jb ! k = opn"
      by (auto simp: in_set_conv_nth)
    then have "valid_operation 1 (enumerate 0 (operations jb) ! k)"
      using assms by (simp add: valid_job_def list_all_length)
    then have vo: "valid_operation 1 (k, opn)" using k by (simp add: nth_enumerate_eq)
    then obtain m where m: "m \<in> set (eligible_machines opn)"
      by (cases "eligible_machines opn") (auto simp: valid_operation_def)
    with vo have "m = 0" "\<exists>d. processing_times opn m = Some d \<and> 0 < d"
      by (auto simp: valid_operation_def list_all_iff split: option.splits)
    then show ?thesis by (auto simp: operation_work_def)
  qed
  then show ?thesis unfolding job_work_def by (intro sum_list_nonneg) auto
qed

lemma total_work_insert_job:
  "total_work (insert_job k jb inst) = total_work inst + job_work jb"
proof -
  have "sum_list (map job_work (take k (jobs inst))) +
        sum_list (map job_work (drop k (jobs inst))) =
        sum_list (map job_work (take k (jobs inst) @ drop k (jobs inst)))"
    by (simp only: map_append sum_list_append)
  also have "\<dots> = total_work inst"
    by (simp only: append_take_drop_id total_work_def)
  finally show ?thesis by (simp add: total_work_def insert_job_def)
qed

text \<open>
  On one machine the makespan is the sum of all durations, so a job more never
  decreases it.
\<close>

lemma spt_makespan_monotone_one_machine:
  assumes "valid_instance inst" and "valid_instance (insert_job k jb inst)"
    and "num_machines inst = 1"
  shows "\<exists>m m'. spt_makespan inst = Some (Fin m) \<and>
                spt_makespan (insert_job k jb inst) = Some (Fin m') \<and> m \<le> m'"
proof -
  let ?inst' = "insert_job k jb inst"
  have one': "num_machines ?inst' = 1" using assms(3) by (simp add: insert_job_def)
  have "jb \<in> set (jobs ?inst')" by (simp add: insert_job_def)
  then have "valid_job 1 jb"
    using assms(2) one' by (simp add: valid_instance_def list_all_iff)
  then have "total_work inst \<le> total_work ?inst'"
    using valid_job_work_nonneg by (simp add: total_work_insert_job)
  then show ?thesis
    using single_machine_makespan[OF assms(1,3)] single_machine_makespan[OF assms(2) one']
    by blast
qed

section \<open>The selected candidate has the least duration\<close>







section \<open>Instances with one more job\<close>









section \<open>The same choice in both runs\<close>



section \<open>The two runs side by side\<close>




section \<open>Makespan and added jobs\<close>







lemma untied_instance_runs:
  "spt_makespan untied_instance = Some (Fin 17)"
  "spt_makespan (insert_job 1 untied_job untied_instance) = Some (Fin 17)"
  by (simp_all add: spt_makespan_def insert_job_def untied_instance_def untied_job_def spt_eval)

end
